theory Spec2Isabelle
  imports Complex_Main "HOL-Library.List_Lexorder" "HOL-Library.Char_ord" "HOL-Library.Multiset"
begin

chapter \<open>The program\<close>

section \<open>Characters and strings\<close>

text \<open>
  A Python \<open>str\<close> is modelled as a HOL \<open>string\<close>; a character is one of the first 256
  code points.  \<open>str.split()\<close>, \<open>str.strip()\<close> and the regular expression class
  \<open>\s\<close> all use the same predicate on code points (\<open>Py_UNICODE_ISSPACE\<close>), which
  below 256 holds for 9..13, 28..31, 32, 0x85 and 0xA0.
\<close>

definition isspace :: "char \<Rightarrow> bool" where
  "isspace c \<longleftrightarrow>
     c \<in> {CHR 0x09, CHR 0x0A, CHR 0x0B, CHR 0x0C, CHR 0x0D,
          CHR 0x1C, CHR 0x1D, CHR 0x1E, CHR 0x1F, CHR 0x20, CHR 0x85, CHR 0xA0}"

text \<open>
  \<open>str.split(None, maxsplit)\<close>, after CPython's \<open>split_whitespace\<close>: skip whitespace,
  cut a maximal run of non-whitespace, at most \<open>maxsplit\<close> times; what is left after the
  last cut loses its leading whitespace only and is appended when it is not empty.
\<close>

fun split_ws :: "nat \<Rightarrow> string \<Rightarrow> string list" where
  "split_ws 0 s =
     (let r = dropWhile isspace s in if r = [] then [] else [r])"
| "split_ws (Suc n) s =
     (let r = dropWhile isspace s in
      if r = [] then []
      else takeWhile (\<lambda>c. \<not> isspace c) r # split_ws n (dropWhile (\<lambda>c. \<not> isspace c) r))"

definition endswith :: "string \<Rightarrow> string \<Rightarrow> bool" where
  "endswith s suffix \<longleftrightarrow>
     length suffix \<le> length s \<and> drop (length s - length suffix) s = suffix"

section \<open>Listing parser (\<open>parse_s3_line\<close>)\<close>

definition parse_s3_line :: "string \<Rightarrow> (string \<times> string \<times> string) option" where
  "parse_s3_line line =
     (case split_ws 3 line of
        [date, time, sz, fullpath] \<Rightarrow>
          if endswith fullpath ''/'' then None
          else Some (date @ '' '' @ time, sz, fullpath)
      | _ \<Rightarrow> None)"

text \<open>The two shapes of text between which \<open>split\<close> cuts.\<close>

definition blank :: "string \<Rightarrow> bool" where
  "blank s \<longleftrightarrow> list_all isspace s"

definition token :: "string \<Rightarrow> bool" where
  "token s \<longleftrightarrow> s \<noteq> [] \<and> list_all (\<lambda>c. \<not> isspace c) s"


section \<open>Records (\<open>FileRecord\<close>)\<close>

text \<open>
  The field \<open>size\<close> of the source is \<open>size_str\<close> here (\<open>size\<close> is a constant of HOL).
  An optional argument of the constructor is a \<open>string option\<close>, \<open>None\<close> being Python's
  \<open>None\<close>; \<open>v or d\<close> on such a value is \<open>or_default v d\<close>.  The reading of the clock
  inside the constructor, \<open>datetime.now().strftime("%Y-%m-%d")\<close>, is the parameter \<open>now\<close>.
\<close>

record FileRecord =
  creation :: string
  size_str :: string
  fullpath :: string
  added :: string
  removed :: string
  wayback_url :: string

definition or_default :: "string option \<Rightarrow> string \<Rightarrow> string" where
  "or_default v d = (case v of None \<Rightarrow> d | Some s \<Rightarrow> if s = [] then d else s)"

definition FileRecord_init ::
  "string \<Rightarrow> string \<Rightarrow> string \<Rightarrow> string \<Rightarrow> string option \<Rightarrow> string option \<Rightarrow> string option
     \<Rightarrow> FileRecord" where
  "FileRecord_init now creation0 size0 fullpath0 added0 removed0 wayback_url0 =
     \<lparr>creation = creation0, size_str = size0, fullpath = fullpath0,
      added = or_default added0 now,
      removed = or_default removed0 [],
      wayback_url = or_default wayback_url0 []\<rparr>"

section \<open>Reconciliation (\<open>sync_files\<close>)\<close>

datatype error = KeyError string | NoneField string | CsvError

text \<open>
  \<open>file_data\<close> and \<open>existing_records\<close> are dictionaries; a dictionary is an association
  list in insertion order, written with \<open>dict_set\<close> (an assignment \<open>d[k] = v\<close>) and read
  with \<open>map_of\<close>.  \<open>current_files\<close> is a set, iterated in an order the language does not
  fix: it is a list without repetitions, in some order.
\<close>

type_synonym file_data = "(string \<times> (string \<times> string)) list"
type_synonym records = "(string \<times> FileRecord) list"

fun dict_set :: "'k \<Rightarrow> 'v \<Rightarrow> ('k \<times> 'v) list \<Rightarrow> ('k \<times> 'v) list" where
  "dict_set k v [] = [(k, v)]"
| "dict_set k v ((k', v') # kvs) =
     (if k' = k then (k, v) # kvs else (k', v') # dict_set k v kvs)"

definition set_add :: "'a \<Rightarrow> 'a list \<Rightarrow> 'a list" where
  "set_add x xs = (if x \<in> set xs then xs else xs @ [x])"

text \<open>The loop over the listing's lines (lines 162 to 169).\<close>

fun scan_lines :: "string list \<Rightarrow> file_data \<times> string list \<Rightarrow> file_data \<times> string list" where
  "scan_lines [] st = st"
| "scan_lines (line # s3_lines) (fd, current_files) =
     (case parse_s3_line line of
        None \<Rightarrow> scan_lines s3_lines (fd, current_files)
      | Some (creation0, size0, fullpath0) \<Rightarrow>
          scan_lines s3_lines
            (dict_set fullpath0 (creation0, size0) fd, set_add fullpath0 current_files))"

text \<open>
  The loop over \<open>current_files\<close> (lines 186 to 197).  The state is
  \<open>(existing_records, updated_records, new_urls)\<close>; a record found in \<open>existing_records\<close> is
  changed in place, so the dictionary holds the changed record afterwards.
\<close>

fun present_loop ::
  "file_data \<Rightarrow> string \<Rightarrow> string \<Rightarrow> string list \<Rightarrow> records \<times> FileRecord list \<times> nat
     \<Rightarrow> error + records \<times> FileRecord list \<times> nat" where
  "present_loop fd added_date now [] st = Inr st"
| "present_loop fd added_date now (p # ps) (existing_records, updated_records, new_urls) =
     (case map_of fd p of
        None \<Rightarrow> Inl (KeyError p)
      | Some (creation0, size0) \<Rightarrow>
          (case map_of existing_records p of
             Some r \<Rightarrow>
               (let r' = r\<lparr>creation := creation0, size_str := size0\<rparr>
                in present_loop fd added_date now ps
                     (dict_set p r' existing_records, updated_records @ [r'], new_urls))
           | None \<Rightarrow>
               present_loop fd added_date now ps
                 (existing_records,
                  updated_records @
                    [FileRecord_init now creation0 size0 p (Some added_date) None None],
                  new_urls + 1)))"

text \<open>
  The loop over \<open>existing_records.items()\<close> (lines 200 to 205), with the state
  \<open>(updated_records, removed_urls)\<close>.
\<close>

fun absent_loop ::
  "string list \<Rightarrow> string \<Rightarrow> records \<Rightarrow> FileRecord list \<times> nat \<Rightarrow> FileRecord list \<times> nat" where
  "absent_loop current_files today [] st = st"
| "absent_loop current_files today ((p, r) # items) (updated_records, removed_urls) =
     (if p \<notin> set current_files then
        (if removed r = [] then
           absent_loop current_files today items
             (updated_records @ [r\<lparr>removed := today\<rparr>], removed_urls + 1)
         else absent_loop current_files today items (updated_records @ [r], removed_urls))
      else absent_loop current_files today items (updated_records, removed_urls))"

text \<open>
  Lines 179 to 205: the result is \<open>(updated_records, new_urls, removed_urls)\<close>.  \<open>today\<close> is
  the reading of the clock at line 173.
\<close>

definition reconcile ::
  "file_data \<Rightarrow> string list \<Rightarrow> records \<Rightarrow> bool \<Rightarrow> string \<Rightarrow> string
     \<Rightarrow> error + FileRecord list \<times> nat \<times> nat" where
  "reconcile fd current_files existing_records initial_crawl today now =
     (let is_initial_crawl = (initial_crawl \<or> length existing_records = 0);
          added_date = (if is_initial_crawl then ''initial crawl'' else today)
      in case present_loop fd added_date now current_files (existing_records, [], 0) of
           Inl e \<Rightarrow> Inl e
         | Inr (existing_records', updated_records, new_urls) \<Rightarrow>
             (if \<not> is_initial_crawl then
                (case absent_loop current_files today existing_records' (updated_records, 0) of
                   (updated_records', removed_urls) \<Rightarrow>
                     Inr (updated_records', new_urls, removed_urls))
              else Inr (updated_records, new_urls, 0)))"

text \<open>\<open>save_csv\<close> writes the records sorted by \<open>fullpath\<close> (\<open>sorted\<close> is stable).\<close>

definition sorted_records :: "FileRecord list \<Rightarrow> FileRecord list" where
  "sorted_records rs = sort_key fullpath rs"

section \<open>The table file, row by row (\<open>save_csv\<close>, \<open>load_existing_csv\<close>)\<close>

text \<open>
  Between the program and the text of \<open>all_keys.csv\<close> stand \<open>csv.DictWriter\<close> and
  \<open>csv.DictReader\<close>.  This section is the program's side: the file as the list of its rows,
  the header first, each row the list of its fields.
\<close>

definition fieldnames :: "string list" where
  "fieldnames = [''creation'', ''size'', ''fullpath'', ''added'', ''removed'', ''wayback_url'']"

definition to_dict :: "FileRecord \<Rightarrow> (string \<times> string) list" where
  "to_dict r =
     [(''creation'', creation r), (''size'', size_str r), (''fullpath'', fullpath r),
      (''added'', added r), (''removed'', removed r), (''wayback_url'', wayback_url r)]"

text \<open>\<open>DictWriter.writerow\<close>: the values of the dictionary in the order of the header.\<close>

definition dict_to_list :: "string list \<Rightarrow> (string \<times> string) list \<Rightarrow> string list" where
  "dict_to_list names d = map (\<lambda>key. case map_of d key of Some v \<Rightarrow> v | None \<Rightarrow> []) names"

definition save_rows :: "FileRecord list \<Rightarrow> string list list" where
  "save_rows rs = fieldnames # map (\<lambda>r. dict_to_list fieldnames (to_dict r)) (sorted_records rs)"

text \<open>
  \<open>DictReader\<close>: the dictionary of a row is \<open>dict(zip(names, row))\<close>, and a name the row is
  too short for gets \<open>None\<close>.  (Fields beyond the header go under the key \<open>None\<close>, which the
  program never reads.)
\<close>

definition DictReader_row :: "string list \<Rightarrow> string list \<Rightarrow> (string \<times> string option) list" where
  "DictReader_row names row =
     fold (\<lambda>(key, v) d. dict_set key v d)
       (zip names (map Some row @ replicate (length names - length row) None)) []"

definition row_lookup :: "(string \<times> string option) list \<Rightarrow> string \<Rightarrow> string option option" where
  "row_lookup d key = map_of d key"

text \<open>
  \<open>row[key]\<close> raises \<open>KeyError\<close> when the header lacks the column.  A short row leaves
  \<open>None\<close> in the column; the source would go on with \<open>None\<close> in a field declared \<open>str\<close>,
  which the record type here excludes: the model stops with \<open>NoneField\<close>.
\<close>

definition row_item :: "(string \<times> string option) list \<Rightarrow> string \<Rightarrow> error + string" where
  "row_item d key =
     (case row_lookup d key of
        None \<Rightarrow> Inl (KeyError key)
      | Some None \<Rightarrow> Inl (NoneField key)
      | Some (Some v) \<Rightarrow> Inr v)"

text \<open>\<open>row.get(key, '')\<close>.\<close>

definition row_get :: "(string \<times> string option) list \<Rightarrow> string \<Rightarrow> string option" where
  "row_get d key = (case row_lookup d key of None \<Rightarrow> Some [] | Some v \<Rightarrow> v)"

text \<open>The loop of \<open>load_existing_csv\<close> (lines 125 to 134); \<open>DictReader\<close> skips empty rows.\<close>

fun load_rows :: "string \<Rightarrow> string list \<Rightarrow> string list list \<Rightarrow> records \<Rightarrow> error + records" where
  "load_rows now names [] recs = Inr recs"
| "load_rows now names (row # rows) recs =
     (if row = [] then load_rows now names rows recs
      else
        (let d = DictReader_row names row in
         case row_item d ''fullpath'' of
           Inl e \<Rightarrow> Inl e
         | Inr fullpath0 \<Rightarrow>
             (case row_item d ''creation'' of
                Inl e \<Rightarrow> Inl e
              | Inr creation0 \<Rightarrow>
                  (case row_item d ''size'' of
                     Inl e \<Rightarrow> Inl e
                   | Inr size0 \<Rightarrow>
                       load_rows now names rows
                         (dict_set fullpath0
                            (FileRecord_init now creation0 size0 fullpath0
                               (row_get d ''added'') (row_get d ''removed'')
                               (row_get d ''wayback_url''))
                            recs)))))"

text \<open>The first row of the file is the header; a file without rows gives no records.\<close>

definition load_existing_rows :: "string \<Rightarrow> string list list \<Rightarrow> error + records" where
  "load_existing_rows now file =
     (case file of [] \<Rightarrow> Inr [] | names # rows \<Rightarrow> load_rows now names rows [])"

section \<open>Notions used in the statements\<close>

text \<open>
  A snapshot is \<open>file_data\<close> with an enumeration of \<open>current_files\<close>, the set of its keys.
  In \<open>existing_records\<close> every key is the \<open>fullpath\<close> of its record, and no key is twice.
\<close>

definition snapshot_ok :: "file_data \<Rightarrow> string list \<Rightarrow> bool" where
  "snapshot_ok fd current_files \<longleftrightarrow>
     distinct current_files \<and> set current_files = fst ` set fd"

definition records_ok :: "records \<Rightarrow> bool" where
  "records_ok ex \<longleftrightarrow> distinct (map fst ex) \<and> list_all (\<lambda>(k, r). fullpath r = k) ex"

text \<open>What the two loops do to one path and to one record.\<close>

definition updated :: "file_data \<Rightarrow> records \<Rightarrow> string \<Rightarrow> string \<Rightarrow> string \<Rightarrow> FileRecord" where
  "updated fd ex added_date now p =
     (case map_of fd p of
        None \<Rightarrow> FileRecord_init now [] [] p (Some added_date) None None
      | Some (c, s) \<Rightarrow>
          (case map_of ex p of
             Some r \<Rightarrow> r\<lparr>creation := c, size_str := s\<rparr>
           | None \<Rightarrow> FileRecord_init now c s p (Some added_date) None None))"

definition mark_removed :: "string \<Rightarrow> FileRecord \<Rightarrow> FileRecord" where
  "mark_removed today r = (if removed r = [] then r\<lparr>removed := today\<rparr> else r)"

definition absent_items :: "string list \<Rightarrow> records \<Rightarrow> records" where
  "absent_items current_files ex = filter (\<lambda>(k, r). k \<notin> set current_files) ex"

text \<open>The list \<open>updated_records\<close> at line 207, in closed form.\<close>

definition output_of :: "file_data \<Rightarrow> string list \<Rightarrow> records \<Rightarrow> bool \<Rightarrow> string \<Rightarrow> string \<Rightarrow> FileRecord list" where
  "output_of fd cur ex ic today now =
     (if ic \<or> ex = [] then map (updated fd ex ''initial crawl'' now) cur
      else map (updated fd ex today now) cur @ map (mark_removed today \<circ> snd) (absent_items cur ex))"

text \<open>The row that \<open>save_csv\<close> writes for a record.\<close>

definition record_row :: "FileRecord \<Rightarrow> string list" where
  "record_row r = [creation r, size_str r, fullpath r, added r, removed r, wayback_url r]"

text \<open>The record that the body of the loop of \<open>load_existing_csv\<close> builds from a row.\<close>

definition row_record :: "string \<Rightarrow> string list \<Rightarrow> string list \<Rightarrow> error + FileRecord" where
  "row_record now names row =
     (let d = DictReader_row names row in
      case row_item d ''fullpath'' of
        Inl e \<Rightarrow> Inl e
      | Inr fullpath0 \<Rightarrow>
          (case row_item d ''creation'' of
             Inl e \<Rightarrow> Inl e
           | Inr creation0 \<Rightarrow>
               (case row_item d ''size'' of
                  Inl e \<Rightarrow> Inl e
                | Inr size0 \<Rightarrow>
                    Inr (FileRecord_init now creation0 size0 fullpath0
                           (row_get d ''added'') (row_get d ''removed'')
                           (row_get d ''wayback_url'')))))"

section \<open>The archive submitter (\<open>archive_files.py\<close>)\<close>

text \<open>
  The world outside is a parameter: \<open>respond k\<close> is what the \<open>k\<close>-th request (counted from
  0) meets, a response with its \<open>Content-Location\<close> header and final URL, an \<open>HTTPError\<close>
  with its code, or another exception; \<open>clock k\<close> is the \<open>k\<close>-th reading of \<open>time.time()\<close>.
  What the program does to the world is the list of its events, in order: a request (with
  the index of the record and the URL asked for), a sleep, a write of the table, a write of
  the statistics file (\<open>new_archives\<close>, \<open>already_archived\<close>, \<open>failed\<close>).  Writes succeed.
\<close>

datatype response = Response "string option" string | HTTPError nat | OtherException

datatype event =
    Request nat string
  | Sleep nat
  | WriteCsv "(string \<times> string option) list list"
  | WriteStats nat nat nat

record astate =
  archived :: nat
  skipped :: nat
  requests :: nat
  readings :: nat
  events :: "event list"

text \<open>\<open>row.get(key)\<close> in a condition, and \<open>row[key]\<close> inside an f-string.\<close>

definition truthy :: "(string \<times> string option) list \<Rightarrow> string \<Rightarrow> bool" where
  "truthy row key = (case row_lookup row key of Some (Some v) \<Rightarrow> v \<noteq> [] | _ \<Rightarrow> False)"

definition row_format :: "(string \<times> string option) list \<Rightarrow> string \<Rightarrow> error + string" where
  "row_format row key =
     (case row_lookup row key of
        None \<Rightarrow> Inl (KeyError key)
      | Some None \<Rightarrow> Inr ''None''
      | Some (Some v) \<Rightarrow> Inr v)"

definition wayback_of :: "string option \<Rightarrow> string \<Rightarrow> string" where
  "wayback_of content_location geturl =
     (case content_location of
        Some l \<Rightarrow> if l \<noteq> [] then ''https://web.archive.org'' @ l else geturl
      | None \<Rightarrow> geturl)"

text \<open>
  The loop of \<open>main\<close> (lines 44 to 93) over \<open>enumerate(records)\<close>: \<open>seen\<close> are the records
  the loop has left behind, \<open>row # todo\<close> those to come, so the index of \<open>row\<close> is
  \<open>length seen\<close>.  The result is the error that ended the run, if one did, the records and
  the state.
\<close>

fun archive_loop ::
  "(nat \<Rightarrow> response) \<Rightarrow> (nat \<Rightarrow> real) \<Rightarrow> real \<Rightarrow> int \<Rightarrow>
   (string \<times> string option) list list \<Rightarrow> (string \<times> string option) list list \<Rightarrow> astate
     \<Rightarrow> error option \<times> (string \<times> string option) list list \<times> astate" where
  "archive_loop respond clock start_time timeout seen [] st = (None, seen, st)"
| "archive_loop respond clock start_time timeout seen (row # todo) st =
     (let st1 = st\<lparr>readings := readings st + 1\<rparr> in
      if clock (readings st) - start_time > real_of_int timeout then
        (None, seen @ row # todo, st1)
      else if truthy row ''wayback_url'' then
        archive_loop respond clock start_time timeout (seen @ [row]) todo
          (st1\<lparr>skipped := skipped st1 + 1\<rparr>)
      else if truthy row ''removed'' then
        archive_loop respond clock start_time timeout (seen @ [row]) todo st1
      else
        (case row_format row ''fullpath'' of
           Inl e \<Rightarrow> (Some e, seen @ row # todo, st1)
         | Inr p \<Rightarrow>
             (let save_url = ''https://web.archive.org/save/'' @ ''http://download.tplinkcloud.com/'' @ p;
                  st2 = st1\<lparr>requests := requests st1 + 1,
                            events := events st1 @ [Request (length seen) save_url]\<rparr>
              in case respond (requests st1) of
                   Response content_location geturl \<Rightarrow>
                     (let row' = dict_set ''wayback_url''
                                   (Some (wayback_of content_location geturl)) row;
                          st3 = st2\<lparr>archived := archived st2 + 1\<rparr>;
                          st4 = st3\<lparr>events := events st3 @
                                  [WriteCsv (seen @ row' # todo),
                                   WriteStats (archived st3) (skipped st3) 0,
                                   Sleep 2]\<rparr>
                      in archive_loop respond clock start_time timeout (seen @ [row']) todo st4)
                 | HTTPError code \<Rightarrow>
                     (if code = 429 then
                        archive_loop respond clock start_time timeout (seen @ [row]) todo
                          (st2\<lparr>events := events st2 @ [Sleep 60]\<rparr>)
                      else
                        archive_loop respond clock start_time timeout (seen @ [row]) todo
                          (st2\<lparr>events := events st2 @ [Sleep 2]\<rparr>))
                 | OtherException \<Rightarrow>
                     archive_loop respond clock start_time timeout (seen @ [row]) todo
                       (st2\<lparr>events := events st2 @ [Sleep 2]\<rparr>))))"

text \<open>
  \<open>main\<close>: the table is \<open>None\<close> when \<open>all_keys.csv\<close> does not exist, otherwise its rows,
  the header first.  The result is the error or the exit status, with the events.
\<close>

definition archive_main ::
  "(nat \<Rightarrow> response) \<Rightarrow> (nat \<Rightarrow> real) \<Rightarrow> int \<Rightarrow> string list list option
     \<Rightarrow> (error + nat) \<times> event list" where
  "archive_main respond clock timeout table =
     (case table of
        None \<Rightarrow> (Inr 1, [WriteStats 0 0 0])
      | Some file \<Rightarrow>
          (let records =
                 (case file of
                    [] \<Rightarrow> []
                  | names # rows \<Rightarrow> map (DictReader_row names) (filter (\<lambda>row. row \<noteq> []) rows));
               st0 = \<lparr>archived = 0, skipped = 0, requests = 0, readings = 1,
                      events = [WriteStats 0 0 0]\<rparr>
           in case archive_loop respond clock (clock 0) timeout [] records st0 of
                (Some e, records', st) \<Rightarrow> (Inl e, events st)
              | (None, records', st) \<Rightarrow>
                  (Inr 0,
                   events st @ [WriteCsv records', WriteStats (archived st) (skipped st) 0])))"

text \<open>The indices of the records requested, in the order of the requests.\<close>

fun request_indices :: "event list \<Rightarrow> nat list" where
  "request_indices [] = []"
| "request_indices (Request i u # es) = i # request_indices es"
| "request_indices (e # es) = request_indices es"

text \<open>
  What every run of the loop keeps: its events extend the earlier ones, the records requested
  have increasing indices from the current one on, every statistics file says \<open>failed=0\<close>,
  and the records left behind stay as they are.
\<close>

definition run_ok ::
  "(string \<times> string option) list list \<Rightarrow> astate \<Rightarrow>
   error option \<times> (string \<times> string option) list list \<times> astate \<Rightarrow> bool" where
  "run_ok seen st res \<longleftrightarrow>
     (case res of (err, recs, st') \<Rightarrow>
        \<exists>tr. events st' = events st @ tr \<and>
             sorted_wrt (<) (request_indices tr) \<and>
             (\<forall>i\<in>set (request_indices tr). length seen \<le> i) \<and>
             (\<forall>a k f. WriteStats a k f \<in> set tr \<longrightarrow> f = 0) \<and>
             take (length seen) recs = seen)"

section \<open>The path classifier (\<open>extract_type_and_product\<close>)\<close>

text \<open>\<open>str.split("/")\<close>: the pieces between the separators, empty ones included.\<close>

fun split_sep :: "char \<Rightarrow> string \<Rightarrow> string list" where
  "split_sep sep [] = [[]]"
| "split_sep sep (c # cs) =
     (if c = sep then [] # split_sep sep cs
      else (case split_sep sep cs of
              piece # pieces \<Rightarrow> (c # piece) # pieces
            | [] \<Rightarrow> [[c]]))"

text \<open>\<open>str.rstrip('-')\<close>.\<close>

definition rstrip_hyphen :: "string \<Rightarrow> string" where
  "rstrip_hyphen s = rev (dropWhile (\<lambda>c. c = CHR ''-'') (rev s))"

text \<open>
  The character classes of the two patterns.  Among the first 256 code points,
  \<open>re.IGNORECASE\<close> adds nothing to \<open>[A-Za-z]\<close>, and makes a letter of the pattern match
  its other case.
\<close>

definition is_alpha :: "char \<Rightarrow> bool" where
  "is_alpha c \<longleftrightarrow> (CHR ''A'' \<le> c \<and> c \<le> CHR ''Z'') \<or> (CHR ''a'' \<le> c \<and> c \<le> CHR ''z'')"

definition is_digit :: "char \<Rightarrow> bool" where
  "is_digit c \<longleftrightarrow> CHR ''0'' \<le> c \<and> c \<le> CHR ''9''"

text \<open>\<open>[A-Za-z0-9\-]\<close>\<close>

definition is_run :: "char \<Rightarrow> bool" where
  "is_run c \<longleftrightarrow> is_alpha c \<or> is_digit c \<or> c = CHR ''-''"

definition lower :: "char \<Rightarrow> char" where
  "lower c = (if CHR ''A'' \<le> c \<and> c \<le> CHR ''Z'' then char_of (of_char c + (32 :: nat)) else c)"

text \<open>A literal of the pattern at the start of the text, letters in either case.\<close>

definition starts_ci :: "string \<Rightarrow> string \<Rightarrow> bool" where
  "starts_ci lit s \<longleftrightarrow>
     length lit \<le> length s \<and> map lower (take (length lit) s) = map lower lit"

text \<open>\<open>(?:[0-9]|en_|v[0-9]|Build|Rel|dist)\<close> at the start of the text, under \<open>IGNORECASE\<close>.\<close>

definition marker :: "string \<Rightarrow> bool" where
  "marker s \<longleftrightarrow>
     (case s of c # _ \<Rightarrow> is_digit c | [] \<Rightarrow> False) \<or>
     starts_ci ''en_'' s \<or>
     (case s of v # d # _ \<Rightarrow> lower v = CHR ''v'' \<and> is_digit d | _ \<Rightarrow> False) \<or>
     starts_ci ''Build'' s \<or> starts_ci ''Rel'' s \<or> starts_ci ''dist'' s"

text \<open>
  \<open>\s+(?:...)\<close> at the start of the text: one whitespace character, and then either more of
  the same or the marker.
\<close>

fun spaces_then_marker :: "string \<Rightarrow> bool" where
  "spaces_then_marker [] = False"
| "spaces_then_marker (c # cs) = (isspace c \<and> (spaces_then_marker cs \<or> marker cs))"

text \<open>\<open>[_\(]\<close> at the start of the text.\<close>

definition underscore_or_paren :: "string \<Rightarrow> bool" where
  "underscore_or_paren s \<longleftrightarrow> (case s of c # _ \<Rightarrow> c = CHR ''_'' \<or> c = CHR ''('' | [] \<Rightarrow> False)"

text \<open>
  The lazy \<open>[A-Za-z0-9\-]*?\<close> of the group, followed by the rest of the pattern: the
  matcher tries the rest first, and takes one more character of the class only when the rest
  does not match.  \<open>acc\<close> is the group so far; the result is the group of the match.
\<close>

fun lazy_run :: "(string \<Rightarrow> bool) \<Rightarrow> string \<Rightarrow> string \<Rightarrow> string option" where
  "lazy_run rest acc [] = (if rest [] then Some acc else None)"
| "lazy_run rest acc (c # cs) =
     (if rest (c # cs) then Some acc
      else if is_run c then lazy_run rest (acc @ [c]) cs
      else None)"

text \<open>\<open>re.match\<close> of a pattern \<open>^([A-Za-z][A-Za-z0-9\-]*?)\<close> followed by \<open>rest\<close>; the result is \<open>group(1)\<close>.\<close>

definition match_group :: "(string \<Rightarrow> bool) \<Rightarrow> string \<Rightarrow> string option" where
  "match_group rest s =
     (case s of [] \<Rightarrow> None | c # cs \<Rightarrow> if is_alpha c then lazy_run rest [c] cs else None)"

definition first_pattern :: "string \<Rightarrow> string option" where
  "first_pattern filename = match_group spaces_then_marker filename"

definition second_pattern :: "string \<Rightarrow> string option" where
  "second_pattern filename = match_group underscore_or_paren filename"

definition extract_type_and_product :: "string \<Rightarrow> (string \<times> string \<times> string) option" where
  "extract_type_and_product path =
     (let parts = split_sep CHR ''/'' path in
      if length parts < 2 then None
      else
        (let file_type = parts ! 0;
             subfolder = (if length parts \<ge> 3 then parts ! 1 else []);
             filename = (if length parts \<ge> 3 then last parts else parts ! 1)
         in case first_pattern filename of
              Some product \<Rightarrow> Some (file_type, subfolder, rstrip_hyphen product)
            | None \<Rightarrow>
                (case second_pattern filename of
                   Some product \<Rightarrow> Some (file_type, subfolder, rstrip_hyphen product)
                 | None \<Rightarrow> None)))"

section \<open>The table file as text (\<open>csv.writer\<close>, \<open>csv.reader\<close>, the file objects)\<close>

text \<open>
  \<open>save_csv\<close> opens the file with \<open>newline=''\<close>, so the text the writer produces is the
  text of the file; \<open>load_existing_csv\<close> opens it without, so what the reader gets is the
  text with every \<open>\r\n\<close> and every other \<open>\r\<close> turned into \<open>\n\<close> (universal newlines), cut
  into lines after each \<open>\n\<close>.  Writer and reader are those of the default dialect
  (\<open>excel\<close>): delimiter \<open>,\<close>, quote character \<open>"\<close>, doubled inside a quoted field, line
  terminator \<open>\r\n\<close>, minimal quoting, not strict.
\<close>

definition CR :: char where "CR = CHR 0x0D"
definition LF :: char where "LF = CHR 0x0A"
definition DQ :: char where "DQ = CHR 0x22"
definition COMMA :: char where "COMMA = CHR 0x2C"

subsection \<open>Writing\<close>

definition needs_quotes :: "string \<Rightarrow> bool" where
  "needs_quotes f \<longleftrightarrow> list_ex (\<lambda>c. c = COMMA \<or> c = DQ \<or> c = CR \<or> c = LF) f"

definition double_quotes :: "string \<Rightarrow> string" where
  "double_quotes f = concat (map (\<lambda>c. if c = DQ then [DQ, DQ] else [c]) f)"

definition write_field :: "string \<Rightarrow> string" where
  "write_field f = (if needs_quotes f then DQ # double_quotes f @ [DQ] else f)"

fun join_fields :: "string list \<Rightarrow> string" where
  "join_fields [] = []"
| "join_fields [f] = f"
| "join_fields (f # g # fs) = f @ COMMA # join_fields (g # fs)"

text \<open>\<open>writer.writerow\<close>; a row that is one empty field is written as \<open>""\<close>.\<close>

definition writerow :: "string list \<Rightarrow> string" where
  "writerow row =
     (if row = [[]] then [DQ, DQ] else join_fields (map write_field row)) @ [CR, LF]"

definition csv_write :: "string list list \<Rightarrow> string" where
  "csv_write rows = concat (map writerow rows)"

definition save_csv :: "FileRecord list \<Rightarrow> string" where
  "save_csv rs = csv_write (save_rows rs)"

subsection \<open>Reading the lines\<close>

text \<open>The flag says that the character before was a \<open>\r\<close>.\<close>

fun newlines :: "bool \<Rightarrow> string \<Rightarrow> string" where
  "newlines after_cr [] = []"
| "newlines after_cr (c # cs) =
     (if c = CR then LF # newlines True cs
      else if c = LF \<and> after_cr then newlines False cs
      else c # newlines False cs)"

definition universal_newlines :: "string \<Rightarrow> string" where
  "universal_newlines s = newlines False s"

text \<open>The lines of a text, each with its \<open>\n\<close>; \<open>cur\<close> is the line being read.\<close>

fun lines_from :: "string \<Rightarrow> string \<Rightarrow> string list" where
  "lines_from cur [] = (if cur = [] then [] else [cur])"
| "lines_from cur (c # cs) =
     (if c = LF then (cur @ [c]) # lines_from [] cs else lines_from (cur @ [c]) cs)"

definition readlines :: "string \<Rightarrow> string list" where
  "readlines text = lines_from [] (universal_newlines text)"

subsection \<open>The reader\<close>

text \<open>
  The parser of \<open>_csv.c\<close>, for the default dialect (no escape character, so the states for
  escapes are left out).  An error the parser raises is the state \<open>FAILED\<close>, in which it
  stays.  The end of a line is the input \<open>None\<close>.  A field cannot grow beyond
  \<open>field_limit\<close> characters.  (From CPython 3.11 on the character \<open>NUL\<close> is a character like
  the others; before, the reader refused a line that has one.)
\<close>

datatype pstate =
  START_RECORD | START_FIELD | IN_FIELD | IN_QUOTED_FIELD | QUOTE_IN_QUOTED_FIELD | EAT_CRNL
  | FAILED

record parser =
  pstate :: pstate
  rec_fields :: "string list"
  cur_field :: string

definition field_limit :: nat where
  "field_limit = 131072"

definition parse_reset :: parser where
  "parse_reset = \<lparr>pstate = START_RECORD, rec_fields = [], cur_field = []\<rparr>"

definition parse_save_field :: "parser \<Rightarrow> parser" where
  "parse_save_field p = p\<lparr>rec_fields := rec_fields p @ [cur_field p], cur_field := []\<rparr>"

definition parse_add_char :: "parser \<Rightarrow> char \<Rightarrow> parser" where
  "parse_add_char p c =
     (if length (cur_field p) \<ge> field_limit then p\<lparr>pstate := FAILED\<rparr>
      else p\<lparr>cur_field := cur_field p @ [c]\<rparr>)"

text \<open>The end of a field at a line end: \<open>START_RECORD\<close> at the end of the line, else \<open>EAT_CRNL\<close>.\<close>

definition end_of_line :: "parser \<Rightarrow> char option \<Rightarrow> parser" where
  "end_of_line p x =
     (parse_save_field p)\<lparr>pstate := (if x = None then START_RECORD else EAT_CRNL)\<rparr>"

definition is_eol :: "char option \<Rightarrow> bool" where
  "is_eol x \<longleftrightarrow> x = None \<or> x = Some LF \<or> x = Some CR"

fun start_field :: "parser \<Rightarrow> char option \<Rightarrow> parser" where
  "start_field p x =
     (if is_eol x then end_of_line p x
      else if x = Some DQ then p\<lparr>pstate := IN_QUOTED_FIELD\<rparr>
      else if x = Some COMMA then (parse_save_field p)\<lparr>pstate := START_FIELD\<rparr>
      else
        (case x of
           Some c \<Rightarrow>
             (let q = parse_add_char p c
              in if pstate q = FAILED then q else q\<lparr>pstate := IN_FIELD\<rparr>)
         | None \<Rightarrow> p))"

fun parse_process_char :: "parser \<Rightarrow> char option \<Rightarrow> parser" where
  "parse_process_char p x =
     (case pstate p of
        FAILED \<Rightarrow> p
      | START_RECORD \<Rightarrow>
          (if x = None then p
           else if x = Some LF \<or> x = Some CR then p\<lparr>pstate := EAT_CRNL\<rparr>
           else start_field (p\<lparr>pstate := START_FIELD\<rparr>) x)
      | START_FIELD \<Rightarrow> start_field p x
      | IN_FIELD \<Rightarrow>
          (if is_eol x then end_of_line p x
           else if x = Some COMMA then (parse_save_field p)\<lparr>pstate := START_FIELD\<rparr>
           else (case x of Some c \<Rightarrow> parse_add_char p c | None \<Rightarrow> p))
      | IN_QUOTED_FIELD \<Rightarrow>
          (if x = None then p
           else if x = Some DQ then p\<lparr>pstate := QUOTE_IN_QUOTED_FIELD\<rparr>
           else (case x of Some c \<Rightarrow> parse_add_char p c | None \<Rightarrow> p))
      | QUOTE_IN_QUOTED_FIELD \<Rightarrow>
          (if x = Some DQ then
             (let q = parse_add_char p DQ
              in if pstate q = FAILED then q else q\<lparr>pstate := IN_QUOTED_FIELD\<rparr>)
           else if x = Some COMMA then (parse_save_field p)\<lparr>pstate := START_FIELD\<rparr>
           else if is_eol x then end_of_line p x
           else
             (case x of
                Some c \<Rightarrow>
                  (let q = parse_add_char p c
                   in if pstate q = FAILED then q else q\<lparr>pstate := IN_FIELD\<rparr>)
              | None \<Rightarrow> p))
      | EAT_CRNL \<Rightarrow>
          (if x = Some LF \<or> x = Some CR then p
           else if x = None then p\<lparr>pstate := START_RECORD\<rparr>
           else p\<lparr>pstate := FAILED\<rparr>))"

definition parse_chars :: "parser \<Rightarrow> string \<Rightarrow> parser" where
  "parse_chars p s = fold (\<lambda>c q. parse_process_char q (Some c)) s p"

definition parse_line :: "parser \<Rightarrow> string \<Rightarrow> parser" where
  "parse_line p l = parse_process_char (parse_chars p l) None"

text \<open>
  The rows that iterating over the reader yields (\<open>Reader_iternext\<close>, call after call): a
  row is complete when the parser is back in \<open>START_RECORD\<close> at the end of a line; when
  the lines end inside a row, the row ends there.
\<close>

fun reader_rows :: "parser \<Rightarrow> string list \<Rightarrow> error + string list list" where
  "reader_rows p [] =
     (if cur_field p \<noteq> [] \<or> pstate p = IN_QUOTED_FIELD then Inr [rec_fields (parse_save_field p)]
      else Inr [])"
| "reader_rows p (l # ls) =
     (let q = parse_line p l in
      if pstate q = FAILED then Inl CsvError
      else if pstate q = START_RECORD then
        (case reader_rows parse_reset ls of
           Inl e \<Rightarrow> Inl e
         | Inr rows \<Rightarrow> Inr (rec_fields q # rows))
      else reader_rows q ls)"

definition csv_reader :: "string list \<Rightarrow> error + string list list" where
  "csv_reader ls = reader_rows parse_reset ls"

text \<open>\<open>load_existing_csv\<close>: the file is \<open>None\<close> when it does not exist.\<close>

definition load_existing_csv :: "string \<Rightarrow> string option \<Rightarrow> error + records" where
  "load_existing_csv now file =
     (case file of
        None \<Rightarrow> Inr []
      | Some text \<Rightarrow>
          (case csv_reader (readlines text) of
             Inl e \<Rightarrow> Inl e
           | Inr rows \<Rightarrow> load_existing_rows now rows))"

chapter \<open>Properties\<close>

section \<open>The listing parser\<close>

subsection \<open>How \<open>split\<close> cuts a line\<close>

lemma dropWhile_blank_token:
  "blank ws \<Longrightarrow> token t \<Longrightarrow> dropWhile isspace (ws @ t @ r) = t @ r"
  by (induction ws) (auto simp: blank_def token_def neq_Nil_conv)

lemma takeWhile_token:
  "token t \<Longrightarrow> r = [] \<or> isspace (hd r) \<Longrightarrow> takeWhile (\<lambda>c. \<not> isspace c) (t @ r) = t"
  by (cases r) (auto simp: token_def list_all_iff takeWhile_append2 intro!: takeWhile_eq_all_conv[THEN iffD2])

lemma dropWhile_token:
  "token t \<Longrightarrow> r = [] \<or> isspace (hd r) \<Longrightarrow> dropWhile (\<lambda>c. \<not> isspace c) (t @ r) = r"
  by (cases r) (auto simp: token_def list_all_iff)

lemma split_ws_Suc_token:
  assumes "blank ws" "token t" "r = [] \<or> isspace (hd r)"
  shows "split_ws (Suc n) (ws @ t @ r) = t # split_ws n r"
  using assms by (auto simp: dropWhile_blank_token takeWhile_token dropWhile_token token_def Let_def)

lemma split_ws_0_rest:
  assumes "blank ws" "p \<noteq> []" "\<not> isspace (hd p)"
  shows "split_ws 0 (ws @ p) = [p]"
  using assms by (induction ws) (auto simp: blank_def Let_def neq_Nil_conv)

lemma dropWhile_decomp:
  "\<exists>ws. s = ws @ dropWhile isspace s \<and> blank ws"
  by (rule exI[of _ "takeWhile isspace s"]) (auto simp: blank_def list_all_iff dest: set_takeWhileD)

lemma split_ws_0_D:
  assumes "split_ws 0 s = [p]"
  shows "\<exists>ws. s = ws @ p \<and> blank ws \<and> p \<noteq> [] \<and> \<not> isspace (hd p)"
proof -
  from assms have p: "p = dropWhile isspace s" "p \<noteq> []"
    by (auto simp: Let_def split: if_splits)
  then have "\<not> isspace (hd p)" by (metis hd_dropWhile)
  with p dropWhile_decomp[of s] show ?thesis by auto
qed

lemma split_ws_Suc_D:
  assumes "split_ws (Suc n) s = t # ts"
  shows "\<exists>ws r. s = ws @ t @ r \<and> blank ws \<and> token t \<and> (r = [] \<or> isspace (hd r)) \<and> split_ws n r = ts"
proof -
  define q where "q = dropWhile isspace s"
  from assms have q: "q \<noteq> []" "t = takeWhile (\<lambda>c. \<not> isspace c) q"
     "ts = split_ws n (dropWhile (\<lambda>c. \<not> isspace c) q)"
    by (auto simp: Let_def q_def split: if_splits)
  have "\<not> isspace (hd q)" using q(1) unfolding q_def by (metis hd_dropWhile)
  with q have tok: "token t"
    by (cases q) (auto simp: token_def list_all_iff dest: set_takeWhileD)
  define r where "r = dropWhile (\<lambda>c. \<not> isspace c) q"
  have r: "r = [] \<or> isspace (hd r)" unfolding r_def using hd_dropWhile[of "\<lambda>c. \<not> isspace c" q] by auto
  have qtr: "q = t @ r" by (simp add: q r_def)
  obtain ws where ws: "s = ws @ q" "blank ws"
    using dropWhile_decomp[of s] unfolding q_def by blast
  have "s = ws @ t @ r" using ws(1) qtr by simp
  moreover have "split_ws n r = ts" using q(3) r_def by simp
  ultimately show ?thesis using ws(2) tok r by blast
qed

lemma split_ws_nonempty_blank:
  assumes "split_ws n r \<noteq> []" "r = [] \<or> isspace (hd r)"
  shows "r \<noteq> []"
  using assms by (cases n) (auto simp: Let_def)

lemma endswith_slash: "p \<noteq> [] \<Longrightarrow> endswith p ''/'' \<longleftrightarrow> last p = CHR ''/''"
  by (induction p rule: rev_induct) (auto simp: endswith_def)


lemma parse_s3_line_shape:
  assumes "blank ws0" "token d" "blank ws1" "ws1 \<noteq> []" "token t" "blank ws2" "ws2 \<noteq> []"
    "token s" "blank ws3" "ws3 \<noteq> []" "p \<noteq> []" "\<not> isspace (hd p)"
  shows "parse_s3_line (ws0 @ d @ ws1 @ t @ ws2 @ s @ ws3 @ p) =
           (if last p = CHR ''/'' then None else Some (d @ '' '' @ t, s, p))"
proof -
  have h: "\<And>ws r. blank ws \<Longrightarrow> ws \<noteq> [] \<Longrightarrow> (ws @ r) = [] \<or> isspace (hd (ws @ r))"
    by (auto simp: blank_def neq_Nil_conv)
  have "split_ws 0 (ws3 @ p) = [p]"
    using assms by (intro split_ws_0_rest)
  then have "split_ws (Suc 0) (ws2 @ s @ ws3 @ p) = [s, p]"
    using assms h[of ws3 p] by (subst split_ws_Suc_token) auto
  then have "split_ws (Suc (Suc 0)) (ws1 @ t @ ws2 @ s @ ws3 @ p) = [t, s, p]"
    using assms h[of ws2 "s @ ws3 @ p"] by (subst split_ws_Suc_token) auto
  then have "split_ws (Suc (Suc (Suc 0))) (ws0 @ d @ ws1 @ t @ ws2 @ s @ ws3 @ p) = [d, t, s, p]"
    using assms h[of ws1 "t @ ws2 @ s @ ws3 @ p"] by (subst split_ws_Suc_token) auto
  then have "split_ws 3 (ws0 @ d @ ws1 @ t @ ws2 @ s @ ws3 @ p) = [d, t, s, p]"
    by (simp only: numeral_3_eq_3)
  then show ?thesis using assms(11) by (simp add: parse_s3_line_def endswith_slash)
qed

lemma parse_s3_line_SomeD:
  assumes "parse_s3_line line = Some (c, s, p)"
  shows "\<exists>ws0 d ws1 t ws2 ws3.
           line = ws0 @ d @ ws1 @ t @ ws2 @ s @ ws3 @ p \<and> c = d @ '' '' @ t \<and>
           blank ws0 \<and> token d \<and> blank ws1 \<and> ws1 \<noteq> [] \<and> token t \<and> blank ws2 \<and> ws2 \<noteq> [] \<and>
           token s \<and> blank ws3 \<and> ws3 \<noteq> [] \<and> p \<noteq> [] \<and> \<not> isspace (hd p) \<and> last p \<noteq> CHR ''/''"
proof -
  from assms obtain d t where sp: "split_ws 3 line = [d, t, s, p]" and c: "c = d @ '' '' @ t"
    and e: "\<not> endswith p ''/''"
    by (auto simp: parse_s3_line_def split: list.splits if_splits)
  from sp obtain ws0 r0 where 0: "line = ws0 @ d @ r0" "blank ws0" "token d"
      "r0 = [] \<or> isspace (hd r0)" "split_ws 2 r0 = [t, s, p]"
    using split_ws_Suc_D[of 2 line d "[t, s, p]"] by (auto simp: numeral_3_eq_3 numeral_2_eq_2)
  from 0(5) obtain ws1 r1 where 1: "r0 = ws1 @ t @ r1" "blank ws1" "token t"
      "r1 = [] \<or> isspace (hd r1)" "split_ws 1 r1 = [s, p]"
    using split_ws_Suc_D[of 1 r0 t "[s, p]"] by (auto simp: numeral_2_eq_2)
  from 1(5) obtain ws2 r2 where 2: "r1 = ws2 @ s @ r2" "blank ws2" "token s"
      "r2 = [] \<or> isspace (hd r2)" "split_ws 0 r2 = [p]"
    using split_ws_Suc_D[of 0 r1 s "[p]"] by auto
  from 2(5) obtain ws3 where 3: "r2 = ws3 @ p" "blank ws3" "p \<noteq> []" "\<not> isspace (hd p)"
    using split_ws_0_D by blast
  have n1: "ws1 \<noteq> []" using 0(4) 1(1,3) by (cases ws1) (auto simp: token_def neq_Nil_conv)
  have n2: "ws2 \<noteq> []" using 1(4) 2(1,3) by (cases ws2) (auto simp: token_def neq_Nil_conv)
  have n3: "ws3 \<noteq> []" using 2(4) 3 by (cases ws3) (auto simp: neq_Nil_conv)
  have "line = ws0 @ d @ ws1 @ t @ ws2 @ s @ ws3 @ p" using 0(1) 1(1) 2(1) 3(1) by simp
  moreover have "last p \<noteq> CHR ''/''" using e 3(3) by (simp add: endswith_slash)
  ultimately show ?thesis using c 0 1 2 3 n1 n2 n3 by blast
qed


lemma length_split_ws: "length (split_ws n s) \<le> Suc n"
  by (induction n arbitrary: s) (auto simp: Let_def)

text \<open>
  C9. For every line, \<open>parse_s3_line\<close> cuts at most four tokens, answers \<open>None\<close>
  ("not a data line") unless there are exactly four, and answers \<open>Some (creation, size, path)\<close>
  exactly when the line is: optional whitespace, a date token, whitespace, a time token,
  whitespace, a size token, whitespace, and a non-empty remainder that starts with a
  non-whitespace character, is kept whole (embedded and trailing whitespace included) as the
  path and does not end in \<open>/\<close>; the creation is then date, one space, time.  The
  listing line of the specification's scenario parses to the stated triple.
\<close>

theorem parse_s3_line_correct:
  "length (split_ws 3 line) \<le> 4 \<and>
   (length (split_ws 3 line) \<noteq> 4 \<longrightarrow> parse_s3_line line = None) \<and>
   (parse_s3_line line = Some (c, s, p) \<longleftrightarrow>
      (\<exists>ws0 d ws1 t ws2 ws3.
          line = ws0 @ d @ ws1 @ t @ ws2 @ s @ ws3 @ p \<and> c = d @ '' '' @ t \<and>
          blank ws0 \<and> token d \<and> blank ws1 \<and> ws1 \<noteq> [] \<and> token t \<and>
          blank ws2 \<and> ws2 \<noteq> [] \<and> token s \<and> blank ws3 \<and> ws3 \<noteq> [] \<and>
          p \<noteq> [] \<and> \<not> isspace (hd p) \<and> last p \<noteq> CHR ''/'')) \<and>
   parse_s3_line
     ''2024-01-01 10:00:00      1234 Router_Setup/firmware/TL-WR841N_V14_en_1.2.3.bin'' =
     Some (''2024-01-01 10:00:00'', ''1234'',
           ''Router_Setup/firmware/TL-WR841N_V14_en_1.2.3.bin'')"
proof (intro conjI)
  show "length (split_ws 3 line) \<le> 4"
    using length_split_ws[of 3 line] by simp
  show "length (split_ws 3 line) \<noteq> 4 \<longrightarrow> parse_s3_line line = None"
    by (auto simp: parse_s3_line_def split: list.splits)
  show "parse_s3_line line = Some (c, s, p) \<longleftrightarrow>
      (\<exists>ws0 d ws1 t ws2 ws3.
          line = ws0 @ d @ ws1 @ t @ ws2 @ s @ ws3 @ p \<and> c = d @ '' '' @ t \<and>
          blank ws0 \<and> token d \<and> blank ws1 \<and> ws1 \<noteq> [] \<and> token t \<and>
          blank ws2 \<and> ws2 \<noteq> [] \<and> token s \<and> blank ws3 \<and> ws3 \<noteq> [] \<and>
          p \<noteq> [] \<and> \<not> isspace (hd p) \<and> last p \<noteq> CHR ''/'')"
    (is "?L \<longleftrightarrow> ?R")
  proof
    assume ?L
    then show ?R by (rule parse_s3_line_SomeD)
  next
    assume ?R
    then obtain ws0 d ws1 t ws2 ws3 where
      "line = ws0 @ d @ ws1 @ t @ ws2 @ s @ ws3 @ p" "c = d @ '' '' @ t"
      "blank ws0" "token d" "blank ws1" "ws1 \<noteq> []" "token t" "blank ws2" "ws2 \<noteq> []"
      "token s" "blank ws3" "ws3 \<noteq> []" "p \<noteq> []" "\<not> isspace (hd p)" "last p \<noteq> CHR ''/''"
      by blast
    then show ?L by (simp add: parse_s3_line_shape)
  qed
  show "parse_s3_line
     ''2024-01-01 10:00:00      1234 Router_Setup/firmware/TL-WR841N_V14_en_1.2.3.bin'' =
     Some (''2024-01-01 10:00:00'', ''1234'',
           ''Router_Setup/firmware/TL-WR841N_V14_en_1.2.3.bin'')"
    by code_simp
qed

theorem parse_s3_line_correct_witness:
  "length (split_ws 3 ''2024-01-01 10:00:00 77'') \<noteq> 4 \<and>
   parse_s3_line ''2024-01-01 10:00:00 77'' = None \<and>
   parse_s3_line ''2024-01-01 10:00:00 0 dir/'' = None \<and>
   parse_s3_line (''  '' @ ''2024-01-01'' @ '' '' @ ''10:00:00'' @ ''   '' @ ''77'' @ '' '' @
                  ''my dir/a  file.bin '') =
     Some (''2024-01-01 10:00:00'', ''77'', ''my dir/a  file.bin '')"
proof -
  have a: "length (split_ws 3 ''2024-01-01 10:00:00 77'') \<noteq> 4"
    by code_simp
  have b: "parse_s3_line ''2024-01-01 10:00:00 77'' = None"
    using parse_s3_line_correct[of "''2024-01-01 10:00:00 77''"] a by blast
  have c: "parse_s3_line ''2024-01-01 10:00:00 0 dir/'' = None"
  proof (cases "parse_s3_line ''2024-01-01 10:00:00 0 dir/''")
    case (Some x)
    obtain c s p where x: "x = (c, s, p)" by (cases x)
    have "last p \<noteq> CHR ''/'' \<and> (\<exists>u. ''2024-01-01 10:00:00 0 dir/'' = u @ p) \<and> p \<noteq> []"
      using parse_s3_line_correct[of "''2024-01-01 10:00:00 0 dir/''" c s p] Some x
      by (metis append.assoc)
    then show ?thesis by (metis last_appendR last_snoc append_Cons append_Nil last.simps list.distinct(1))
  qed simp
  have d: "blank ''  '' \<and> token ''2024-01-01'' \<and> blank '' '' \<and> token ''10:00:00'' \<and>
      blank ''   '' \<and> token ''77'' \<and> \<not> isspace (hd ''my dir/a  file.bin '') \<and>
      last ''my dir/a  file.bin '' \<noteq> CHR ''/''"
    by (simp add: blank_def token_def isspace_def)
  have e: "parse_s3_line (''  '' @ ''2024-01-01'' @ '' '' @ ''10:00:00'' @ ''   '' @ ''77'' @ '' '' @
                  ''my dir/a  file.bin '') =
     Some (''2024-01-01 10:00:00'', ''77'', ''my dir/a  file.bin '')"
    apply (rule parse_s3_line_correct[THEN conjunct2, THEN conjunct2, THEN conjunct1, THEN iffD2])
    apply (rule exI[of _ "''  ''"], rule exI[of _ "''2024-01-01''"], rule exI[of _ "'' ''"],
           rule exI[of _ "''10:00:00''"], rule exI[of _ "''   ''"], rule exI[of _ "'' ''"])
    using d by simp
  from a b c e show ?thesis by blast
qed

section \<open>Reconciliation\<close>

subsection \<open>The loops in closed form\<close>

lemma map_of_dict_set: "map_of (dict_set k v kvs) = (map_of kvs)(k \<mapsto> v)"
  by (induction kvs) (auto simp: fun_eq_iff)

lemma keys_dict_set:
  "map fst (dict_set k v kvs) = (if k \<in> fst ` set kvs then map fst kvs else map fst kvs @ [k])"
proof (induction kvs)
  case Nil
  then show ?case by simp
next
  case (Cons a kvs)
  then show ?case by (cases a; cases "fst a = k") (auto simp: image_iff)
qed

lemma absent_items_dict_set:
  "k \<in> set cur \<Longrightarrow> absent_items cur (dict_set k v ex) = absent_items cur ex"
proof (induction ex)
  case Nil
  then show ?case by (simp add: absent_items_def)
next
  case (Cons a ex)
  then show ?case by (cases a; cases "fst a = k") (simp_all add: absent_items_def)
qed

lemma updated_dict_set:
  "q \<noteq> p \<Longrightarrow> updated fd (dict_set p v ex) ad now q = updated fd ex ad now q"
  by (simp add: updated_def map_of_dict_set split: option.splits prod.splits)

lemma present_loop_closed:
  assumes "distinct ps" "set ps \<subseteq> fst ` set fd" "set ps \<subseteq> set cur"
  shows "\<exists>ex'. present_loop fd ad now ps (ex, upd, n) =
           Inr (ex', upd @ map (updated fd ex ad now) ps,
                n + length (filter (\<lambda>p. map_of ex p = None) ps)) \<and>
           absent_items cur ex' = absent_items cur ex"
  using assms
proof (induction ps arbitrary: ex upd n)
  case Nil
  then show ?case by simp
next
  case (Cons p ps)
  from Cons.prems obtain c s where cs: "map_of fd p = Some (c, s)"
    by (cases "map_of fd p") (auto simp: map_of_eq_None_iff)
  have d: "distinct ps" "set ps \<subseteq> fst ` set fd" "set ps \<subseteq> set cur" "p \<notin> set ps" "p \<in> set cur"
    using Cons.prems by auto
  show ?case
  proof (cases "map_of ex p")
    case None
    from Cons.IH[OF d(1,2,3), of ex "upd @ [FileRecord_init now c s p (Some ad) None None]" "n + 1"]
    show ?thesis using None cs by (auto simp: updated_def)
  next
    case (Some r)
    let ?r = "r\<lparr>creation := c, size_str := s\<rparr>"
    from Cons.IH[OF d(1,2,3), of "dict_set p ?r ex" "upd @ [?r]" n]
    obtain ex' where ex': "present_loop fd ad now ps (dict_set p ?r ex, upd @ [?r], n) =
           Inr (ex', (upd @ [?r]) @ map (updated fd (dict_set p ?r ex) ad now) ps,
                n + length (filter (\<lambda>q. map_of (dict_set p ?r ex) q = None) ps))"
       "absent_items cur ex' = absent_items cur (dict_set p ?r ex)" by blast
    have m: "map (updated fd (dict_set p ?r ex) ad now) ps = map (updated fd ex ad now) ps"
      using d(4) by (intro map_cong refl updated_dict_set) auto
    have f: "filter (\<lambda>q. map_of (dict_set p ?r ex) q = None) ps = filter (\<lambda>q. map_of ex q = None) ps"
      using d(4) by (intro filter_cong refl) (auto simp: map_of_dict_set)
    show ?thesis using Some cs ex' m f d(5)
      by (simp add: updated_def absent_items_dict_set)
  qed
qed

lemma absent_loop_closed:
  "absent_loop cur today items (upd, m) =
     (upd @ map (mark_removed today \<circ> snd) (absent_items cur items),
      m + length (filter (\<lambda>(k, r). removed r = []) (absent_items cur items)))"
  by (induction items arbitrary: upd m) (auto simp: absent_items_def mark_removed_def)

lemma reconcile_closed:
  assumes "snapshot_ok fd cur"
  shows "reconcile fd cur ex ic today now =
     (if ic \<or> ex = [] then
        Inr (map (updated fd ex ''initial crawl'' now) cur,
             length (filter (\<lambda>p. map_of ex p = None) cur), 0)
      else
        Inr (map (updated fd ex today now) cur @ map (mark_removed today \<circ> snd) (absent_items cur ex),
             length (filter (\<lambda>p. map_of ex p = None) cur),
             length (filter (\<lambda>(k, r). removed r = []) (absent_items cur ex))))"
proof -
  have a: "distinct cur" "set cur \<subseteq> fst ` set fd" "set cur \<subseteq> set cur"
    using assms by (auto simp: snapshot_ok_def)
  show ?thesis
  proof (cases "ic \<or> ex = []")
    case True
    from present_loop_closed[OF a, of "''initial crawl''" now ex "[]" 0]
    show ?thesis using True by (auto simp: reconcile_def)
  next
    case False
    from present_loop_closed[OF a, of today now ex "[]" 0]
    show ?thesis using False by (auto simp: reconcile_def absent_loop_closed)
  qed
qed

subsection \<open>The records of the output\<close>

lemma records_ok_lookup:
  "records_ok ex \<Longrightarrow> map_of ex p = Some r \<Longrightarrow> fullpath r = p"
  by (auto simp: records_ok_def list_all_iff dest!: map_of_SomeD)

lemma records_ok_member:
  "records_ok ex \<Longrightarrow> (k, r) \<in> set ex \<Longrightarrow> map_of ex k = Some r \<and> fullpath r = k"
  by (auto simp: records_ok_def list_all_iff)

lemma fullpath_init [simp]: "fullpath (FileRecord_init now c s p a rm w) = p"
  by (simp add: FileRecord_init_def)

lemma fullpath_updated: "records_ok ex \<Longrightarrow> fullpath (updated fd ex ad now p) = p"
  by (auto simp: updated_def records_ok_lookup split: option.splits)

lemma fullpath_mark_removed [simp]: "fullpath (mark_removed today r) = fullpath r"
  by (simp add: mark_removed_def)

lemma paths_updated: "records_ok ex \<Longrightarrow> map fullpath (map (updated fd ex ad now) cur) = cur"
  by (induction cur) (auto simp: fullpath_updated)

lemma paths_absent:
  "records_ok ex \<Longrightarrow>
   map fullpath (map (mark_removed today \<circ> snd) (absent_items cur ex)) = map fst (absent_items cur ex)"
  by (auto simp: absent_items_def records_ok_def list_all_iff)

lemma keys_absent: "set (map fst (absent_items cur ex)) = fst ` set ex - set cur"
  by (auto simp: absent_items_def image_iff)

lemma distinct_absent: "records_ok ex \<Longrightarrow> distinct (map fst (absent_items cur ex))"
  by (auto simp: absent_items_def records_ok_def distinct_map_filter)

lemma reconcile_output:
  assumes "snapshot_ok fd cur"
  shows "\<exists>n m. reconcile fd cur ex ic today now = Inr (output_of fd cur ex ic today now, n, m)"
  using reconcile_closed[OF assms, of ex ic today now] by (auto simp: output_of_def)

lemma paths_output:
  assumes "records_ok ex"
  shows "map fullpath (output_of fd cur ex ic today now) =
           (if ic \<or> ex = [] then cur else cur @ map fst (absent_items cur ex))"
  using assms paths_updated[OF assms] paths_absent[OF assms]
  by (simp add: output_of_def del: map_map)

lemma distinct_output:
  assumes "records_ok ex" "distinct cur"
  shows "distinct (map fullpath (output_of fd cur ex ic today now))"
  using assms distinct_absent[OF assms(1), of cur] keys_absent[of cur ex]
  by (auto simp: paths_output)

lemma filter_key_single:
  "distinct (map f xs) \<Longrightarrow> x \<in> set xs \<Longrightarrow> filter (\<lambda>y. f y = f x) xs = [x]"
proof (induction xs)
  case Nil
  then show ?case by simp
next
  case (Cons a xs)
  show ?case
  proof (cases "a = x")
    case True
    have "filter (\<lambda>y. f y = f x) xs = []"
      using Cons.prems True by (auto simp: filter_empty_conv image_iff)
    then show ?thesis using True by simp
  next
    case False
    then have "f a \<noteq> f x" using Cons.prems by (auto simp: image_iff)
    then show ?thesis using Cons False by auto
  qed
qed

lemma present_in_output:
  assumes "map_of ex p = Some r" "map_of fd p = Some (c, s)" "p \<in> set cur"
  shows "r\<lparr>creation := c, size_str := s\<rparr> \<in> set (output_of fd cur ex ic today now)"
proof -
  have "updated fd ex ad now p = r\<lparr>creation := c, size_str := s\<rparr>" for ad
    using assms by (simp add: updated_def)
  then have "r\<lparr>creation := c, size_str := s\<rparr> \<in> set (map (updated fd ex ad now) cur)" for ad
    using assms(3) by (metis image_eqI list.set_map)
  then show ?thesis by (auto simp: output_of_def simp del: set_map)
qed

lemma absent_in_output:
  assumes "records_ok ex" "map_of ex p = Some r" "p \<notin> set cur" "\<not> ic"
  shows "mark_removed today r \<in> set (output_of fd cur ex ic today now)"
proof -
  have "(p, r) \<in> set (absent_items cur ex)"
    using assms by (auto simp: absent_items_def dest: map_of_SomeD)
  then have "mark_removed today r \<in> set (map (mark_removed today \<circ> snd) (absent_items cur ex))"
    by force
  moreover have "ex \<noteq> []" using assms(2) by auto
  ultimately show ?thesis using assms(4) by (auto simp: output_of_def simp del: set_map)
qed

subsection \<open>The claims about reconciliation\<close>

text \<open>
  C3. For every path that is both a key of the previous table and a path of the snapshot,
  reconciliation (in either mode) puts exactly one record with that path into the output: the
  previous record with \<open>creation\<close> and \<open>size\<close> replaced by the snapshot's values.  Its
  \<open>added\<close> and \<open>removed\<close> (and \<open>wayback_url\<close>) fields are the previous ones.
\<close>

theorem reconcile_present_record:
  assumes "snapshot_ok fd cur" "records_ok ex" "map_of ex p = Some r" "map_of fd p = Some (c, s)"
  shows "\<exists>upd n m. reconcile fd cur ex ic today now = Inr (upd, n, m) \<and>
           filter (\<lambda>r'. fullpath r' = p) upd = [r\<lparr>creation := c, size_str := s\<rparr>] \<and>
           list_all (\<lambda>r'. fullpath r' = p \<longrightarrow>
              added r' = added r \<and> removed r' = removed r \<and> wayback_url r' = wayback_url r \<and>
              creation r' = c \<and> size_str r' = s) upd"
proof -
  let ?r = "r\<lparr>creation := c, size_str := s\<rparr>"
  let ?out = "output_of fd cur ex ic today now"
  obtain n m where rec: "reconcile fd cur ex ic today now = Inr (?out, n, m)"
    using reconcile_output[OF assms(1)] by blast
  have "p \<in> set cur" using assms(1,4) by (auto simp: snapshot_ok_def dest!: map_of_SomeD intro: rev_image_eqI)
  then have mem: "?r \<in> set ?out" using assms by (intro present_in_output)
  have d: "distinct (map fullpath ?out)"
    using assms by (intro distinct_output) (auto simp: snapshot_ok_def)
  have fp: "fullpath ?r = p" using records_ok_lookup[OF assms(2,3)] by simp
  have f: "filter (\<lambda>r'. fullpath r' = p) ?out = [?r]"
    using filter_key_single[OF d mem] fp by simp
  have "\<And>r'. r' \<in> set ?out \<Longrightarrow> fullpath r' = p \<Longrightarrow> r' = ?r"
  proof -
    fix r' assume "r' \<in> set ?out" "fullpath r' = p"
    then have "r' \<in> set (filter (\<lambda>r'. fullpath r' = p) ?out)" by simp
    then show "r' = ?r" unfolding f by simp
  qed
  then have "list_all (\<lambda>r'. fullpath r' = p \<longrightarrow>
              added r' = added r \<and> removed r' = removed r \<and> wayback_url r' = wayback_url r \<and>
              creation r' = c \<and> size_str r' = s) ?out"
    unfolding list_all_iff
  proof (intro ballI impI)
    fix r' assume u: "\<And>r'. r' \<in> set ?out \<Longrightarrow> fullpath r' = p \<Longrightarrow> r' = ?r"
      and "r' \<in> set ?out" "fullpath r' = p"
    then have "r' = ?r" by blast
    then show "added r' = added r \<and> removed r' = removed r \<and> wayback_url r' = wayback_url r \<and>
              creation r' = c \<and> size_str r' = s" by simp
  qed
  with rec f show ?thesis by blast
qed


theorem reconcile_present_record_witness:
  "snapshot_ok [(''y'', (''2024-01-01 10:00:00'', ''21'')), (''z'', (''2024-01-01 11:00:00'', ''30''))] [''z'', ''y''] \<and> records_ok [(''x'', \<lparr>creation = ''2023-05-01 08:00:00'', size_str = ''10'', fullpath = ''x'',
                   added = ''2023-05-02'', removed = [], wayback_url = ''https://web.archive.org/x''\<rparr>),
         (''y'', \<lparr>creation = ''2023-05-01 09:00:00'', size_str = ''20'', fullpath = ''y'',
                   added = ''2023-05-02'', removed = ''2023-06-01'', wayback_url = []\<rparr>)] \<and>
   map_of [(''x'', \<lparr>creation = ''2023-05-01 08:00:00'', size_str = ''10'', fullpath = ''x'',
                   added = ''2023-05-02'', removed = [], wayback_url = ''https://web.archive.org/x''\<rparr>),
         (''y'', \<lparr>creation = ''2023-05-01 09:00:00'', size_str = ''20'', fullpath = ''y'',
                   added = ''2023-05-02'', removed = ''2023-06-01'', wayback_url = []\<rparr>)] ''y'' = Some \<lparr>creation = ''2023-05-01 09:00:00'', size_str = ''20'', fullpath = ''y'',
                   added = ''2023-05-02'', removed = ''2023-06-01'', wayback_url = []\<rparr> \<and>
   map_of [(''y'', (''2024-01-01 10:00:00'', ''21'')), (''z'', (''2024-01-01 11:00:00'', ''30''))] ''y'' = Some (''2024-01-01 10:00:00'', ''21'') \<and>
   (\<exists>upd n m. reconcile [(''y'', (''2024-01-01 10:00:00'', ''21'')), (''z'', (''2024-01-01 11:00:00'', ''30''))] [''z'', ''y''] [(''x'', \<lparr>creation = ''2023-05-01 08:00:00'', size_str = ''10'', fullpath = ''x'',
                   added = ''2023-05-02'', removed = [], wayback_url = ''https://web.archive.org/x''\<rparr>),
         (''y'', \<lparr>creation = ''2023-05-01 09:00:00'', size_str = ''20'', fullpath = ''y'',
                   added = ''2023-05-02'', removed = ''2023-06-01'', wayback_url = []\<rparr>)] False ''2024-01-02'' ''2024-01-02'' = Inr (upd, n, m) \<and>
      filter (\<lambda>r'. fullpath r' = ''y'') upd =
        [\<lparr>creation = ''2024-01-01 10:00:00'', size_str = ''21'', fullpath = ''y'',
          added = ''2023-05-02'', removed = ''2023-06-01'', wayback_url = []\<rparr>])"
proof -
  have a: "snapshot_ok [(''y'', (''2024-01-01 10:00:00'', ''21'')), (''z'', (''2024-01-01 11:00:00'', ''30''))] [''z'', ''y'']"
    by (auto simp: snapshot_ok_def)
  have b: "records_ok [(''x'', \<lparr>creation = ''2023-05-01 08:00:00'', size_str = ''10'', fullpath = ''x'',
                   added = ''2023-05-02'', removed = [], wayback_url = ''https://web.archive.org/x''\<rparr>),
         (''y'', \<lparr>creation = ''2023-05-01 09:00:00'', size_str = ''20'', fullpath = ''y'',
                   added = ''2023-05-02'', removed = ''2023-06-01'', wayback_url = []\<rparr>)]"
    by (simp add: records_ok_def)
  have c: "map_of [(''x'', \<lparr>creation = ''2023-05-01 08:00:00'', size_str = ''10'', fullpath = ''x'',
                   added = ''2023-05-02'', removed = [], wayback_url = ''https://web.archive.org/x''\<rparr>),
         (''y'', \<lparr>creation = ''2023-05-01 09:00:00'', size_str = ''20'', fullpath = ''y'',
                   added = ''2023-05-02'', removed = ''2023-06-01'', wayback_url = []\<rparr>)] ''y'' = Some \<lparr>creation = ''2023-05-01 09:00:00'', size_str = ''20'', fullpath = ''y'',
                   added = ''2023-05-02'', removed = ''2023-06-01'', wayback_url = []\<rparr>"
    by simp
  have d: "map_of [(''y'', (''2024-01-01 10:00:00'', ''21'')), (''z'', (''2024-01-01 11:00:00'', ''30''))] ''y'' = Some (''2024-01-01 10:00:00'', ''21'')"
    by simp
  from reconcile_present_record[OF a b c d, of False "''2024-01-02''" "''2024-01-02''"]
  obtain upd n m where
    "reconcile [(''y'', (''2024-01-01 10:00:00'', ''21'')), (''z'', (''2024-01-01 11:00:00'', ''30''))]
       [''z'', ''y''] [(''x'', \<lparr>creation = ''2023-05-01 08:00:00'', size_str = ''10'', fullpath = ''x'',
                   added = ''2023-05-02'', removed = [], wayback_url = ''https://web.archive.org/x''\<rparr>),
         (''y'', \<lparr>creation = ''2023-05-01 09:00:00'', size_str = ''20'', fullpath = ''y'',
                   added = ''2023-05-02'', removed = ''2023-06-01'', wayback_url = []\<rparr>)] False ''2024-01-02'' ''2024-01-02'' = Inr (upd, n, m)"
    "filter (\<lambda>r'. fullpath r' = ''y'') upd =
        [\<lparr>creation = ''2024-01-01 10:00:00'', size_str = ''21'', fullpath = ''y'',
          added = ''2023-05-02'', removed = ''2023-06-01'', wayback_url = []\<rparr>]"
    by auto
  with a b c d show ?thesis by blast
qed

text \<open>
  C4. For every path that is a key of the previous table and not in the snapshot, a
  reconciliation without the initial-crawl flag puts exactly one record with that path into the
  output: the previous record with \<open>removed\<close> set to the run date when \<open>removed\<close> was
  empty, and the previous record as it is when \<open>removed\<close> was not empty (so a further
  reconciliation with the same absence does not overwrite the date).
\<close>

theorem reconcile_absent_record:
  assumes "snapshot_ok fd cur" "records_ok ex" "map_of ex p = Some r" "p \<notin> set cur"
  shows "\<exists>upd n m. reconcile fd cur ex False today now = Inr (upd, n, m) \<and>
           filter (\<lambda>r'. fullpath r' = p) upd =
             [if removed r = [] then r\<lparr>removed := today\<rparr> else r]"
proof -
  let ?out = "output_of fd cur ex False today now"
  obtain n m where rec: "reconcile fd cur ex False today now = Inr (?out, n, m)"
    using reconcile_output[OF assms(1)] by blast
  have mem: "mark_removed today r \<in> set ?out" using assms by (intro absent_in_output) auto
  have d: "distinct (map fullpath ?out)"
    using assms by (intro distinct_output) (auto simp: snapshot_ok_def)
  have fp: "fullpath (mark_removed today r) = p" using records_ok_lookup[OF assms(2,3)] by simp
  have "filter (\<lambda>r'. fullpath r' = p) ?out = [mark_removed today r]"
    using filter_key_single[OF d mem] fp by simp
  with rec show ?thesis by (auto simp: mark_removed_def)
qed


theorem reconcile_absent_record_witness:
  "snapshot_ok [(''y'', (''2024-01-01 10:00:00'', ''21'')), (''z'', (''2024-01-01 11:00:00'', ''30''))] [''z'', ''y''] \<and> records_ok [(''x'', \<lparr>creation = ''2023-05-01 08:00:00'', size_str = ''10'', fullpath = ''x'',
                   added = ''2023-05-02'', removed = [], wayback_url = ''https://web.archive.org/x''\<rparr>),
         (''y'', \<lparr>creation = ''2023-05-01 09:00:00'', size_str = ''20'', fullpath = ''y'',
                   added = ''2023-05-02'', removed = ''2023-06-01'', wayback_url = []\<rparr>)] \<and>
   map_of [(''x'', \<lparr>creation = ''2023-05-01 08:00:00'', size_str = ''10'', fullpath = ''x'',
                   added = ''2023-05-02'', removed = [], wayback_url = ''https://web.archive.org/x''\<rparr>),
         (''y'', \<lparr>creation = ''2023-05-01 09:00:00'', size_str = ''20'', fullpath = ''y'',
                   added = ''2023-05-02'', removed = ''2023-06-01'', wayback_url = []\<rparr>)] ''x'' = Some \<lparr>creation = ''2023-05-01 08:00:00'', size_str = ''10'', fullpath = ''x'',
                   added = ''2023-05-02'', removed = [], wayback_url = ''https://web.archive.org/x''\<rparr> \<and> ''x'' \<notin> set [''z'', ''y''] \<and>
   (\<exists>upd n m. reconcile [(''y'', (''2024-01-01 10:00:00'', ''21'')), (''z'', (''2024-01-01 11:00:00'', ''30''))] [''z'', ''y''] [(''x'', \<lparr>creation = ''2023-05-01 08:00:00'', size_str = ''10'', fullpath = ''x'',
                   added = ''2023-05-02'', removed = [], wayback_url = ''https://web.archive.org/x''\<rparr>),
         (''y'', \<lparr>creation = ''2023-05-01 09:00:00'', size_str = ''20'', fullpath = ''y'',
                   added = ''2023-05-02'', removed = ''2023-06-01'', wayback_url = []\<rparr>)] False ''2024-01-02'' ''2024-01-02'' = Inr (upd, n, m) \<and>
      filter (\<lambda>r'. fullpath r' = ''x'') upd =
        [\<lparr>creation = ''2023-05-01 08:00:00'', size_str = ''10'', fullpath = ''x'',
          added = ''2023-05-02'', removed = ''2024-01-02'',
          wayback_url = ''https://web.archive.org/x''\<rparr>])"
proof -
  have a: "snapshot_ok [(''y'', (''2024-01-01 10:00:00'', ''21'')), (''z'', (''2024-01-01 11:00:00'', ''30''))] [''z'', ''y'']"
    by (auto simp: snapshot_ok_def)
  have b: "records_ok [(''x'', \<lparr>creation = ''2023-05-01 08:00:00'', size_str = ''10'', fullpath = ''x'',
                   added = ''2023-05-02'', removed = [], wayback_url = ''https://web.archive.org/x''\<rparr>),
         (''y'', \<lparr>creation = ''2023-05-01 09:00:00'', size_str = ''20'', fullpath = ''y'',
                   added = ''2023-05-02'', removed = ''2023-06-01'', wayback_url = []\<rparr>)]"
    by (simp add: records_ok_def)
  have c: "map_of [(''x'', \<lparr>creation = ''2023-05-01 08:00:00'', size_str = ''10'', fullpath = ''x'',
                   added = ''2023-05-02'', removed = [], wayback_url = ''https://web.archive.org/x''\<rparr>),
         (''y'', \<lparr>creation = ''2023-05-01 09:00:00'', size_str = ''20'', fullpath = ''y'',
                   added = ''2023-05-02'', removed = ''2023-06-01'', wayback_url = []\<rparr>)] ''x'' = Some \<lparr>creation = ''2023-05-01 08:00:00'', size_str = ''10'', fullpath = ''x'',
                   added = ''2023-05-02'', removed = [], wayback_url = ''https://web.archive.org/x''\<rparr>"
    by simp
  have d: "''x'' \<notin> set [''z'', ''y'']"
    by simp
  from reconcile_absent_record[OF a b c d, of "''2024-01-02''" "''2024-01-02''"]
  obtain upd n m where
    "reconcile [(''y'', (''2024-01-01 10:00:00'', ''21'')), (''z'', (''2024-01-01 11:00:00'', ''30''))]
       [''z'', ''y''] [(''x'', \<lparr>creation = ''2023-05-01 08:00:00'', size_str = ''10'', fullpath = ''x'',
                   added = ''2023-05-02'', removed = [], wayback_url = ''https://web.archive.org/x''\<rparr>),
         (''y'', \<lparr>creation = ''2023-05-01 09:00:00'', size_str = ''20'', fullpath = ''y'',
                   added = ''2023-05-02'', removed = ''2023-06-01'', wayback_url = []\<rparr>)] False ''2024-01-02'' ''2024-01-02'' = Inr (upd, n, m)"
    "filter (\<lambda>r'. fullpath r' = ''x'') upd =
        [\<lparr>creation = ''2023-05-01 08:00:00'', size_str = ''10'', fullpath = ''x'',
          added = ''2023-05-02'', removed = ''2024-01-02'',
          wayback_url = ''https://web.archive.org/x''\<rparr>]"
    by auto
  with a b c d show ?thesis by blast
qed

lemma removed_updated:
  "map_of fd p \<noteq> None \<Longrightarrow>
   removed (updated fd ex ad now p) = (case map_of ex p of Some r \<Rightarrow> removed r | None \<Rightarrow> [])"
  by (auto simp: updated_def FileRecord_init_def or_default_def split: option.splits)

text \<open>
  C5. In initial-crawl mode (the flag set, or the previous table empty) no record is counted as
  removed and every record of the output has the \<open>removed\<close> field its path had in the
  previous table, or the empty one when the path is new.
\<close>

theorem reconcile_initial_crawl_removed:
  assumes "snapshot_ok fd cur" "records_ok ex" "ic \<or> ex = []"
  shows "\<exists>upd n. reconcile fd cur ex ic today now = Inr (upd, n, 0) \<and>
           list_all (\<lambda>r'. removed r' =
              (case map_of ex (fullpath r') of Some r \<Rightarrow> removed r | None \<Rightarrow> [])) upd"
proof -
  let ?out = "map (updated fd ex ''initial crawl'' now) cur"
  have rec: "reconcile fd cur ex ic today now = Inr (?out, length (filter (\<lambda>p. map_of ex p = None) cur), 0)"
    using reconcile_closed[OF assms(1), of ex ic today now] assms(3) by auto
  have "list_all (\<lambda>r'. removed r' =
              (case map_of ex (fullpath r') of Some r \<Rightarrow> removed r | None \<Rightarrow> [])) ?out"
    unfolding list_all_iff
  proof
    fix r' assume "r' \<in> set ?out"
    then obtain q where q: "q \<in> set cur" "r' = updated fd ex ''initial crawl'' now q" by auto
    then have "map_of fd q \<noteq> None"
      using assms(1) by (auto simp: snapshot_ok_def map_of_eq_None_iff)
    then show "removed r' = (case map_of ex (fullpath r') of Some r \<Rightarrow> removed r | None \<Rightarrow> [])"
      using q assms(2) by (simp add: fullpath_updated removed_updated)
  qed
  with rec show ?thesis by blast
qed


theorem reconcile_initial_crawl_removed_witness:
  "snapshot_ok [(''y'', (''2024-01-01 10:00:00'', ''21'')), (''z'', (''2024-01-01 11:00:00'', ''30''))] [''z'', ''y''] \<and> records_ok [(''x'', \<lparr>creation = ''2023-05-01 08:00:00'', size_str = ''10'', fullpath = ''x'',
                   added = ''2023-05-02'', removed = [], wayback_url = ''https://web.archive.org/x''\<rparr>),
         (''y'', \<lparr>creation = ''2023-05-01 09:00:00'', size_str = ''20'', fullpath = ''y'',
                   added = ''2023-05-02'', removed = ''2023-06-01'', wayback_url = []\<rparr>)] \<and>
   (\<exists>upd n. reconcile [(''y'', (''2024-01-01 10:00:00'', ''21'')), (''z'', (''2024-01-01 11:00:00'', ''30''))] [''z'', ''y''] [(''x'', \<lparr>creation = ''2023-05-01 08:00:00'', size_str = ''10'', fullpath = ''x'',
                   added = ''2023-05-02'', removed = [], wayback_url = ''https://web.archive.org/x''\<rparr>),
         (''y'', \<lparr>creation = ''2023-05-01 09:00:00'', size_str = ''20'', fullpath = ''y'',
                   added = ''2023-05-02'', removed = ''2023-06-01'', wayback_url = []\<rparr>)] True ''2024-01-02'' ''2024-01-02'' = Inr (upd, n, 0) \<and>
      list_all (\<lambda>r'. removed r' =
         (case map_of [(''x'', \<lparr>creation = ''2023-05-01 08:00:00'', size_str = ''10'', fullpath = ''x'',
                   added = ''2023-05-02'', removed = [], wayback_url = ''https://web.archive.org/x''\<rparr>),
         (''y'', \<lparr>creation = ''2023-05-01 09:00:00'', size_str = ''20'', fullpath = ''y'',
                   added = ''2023-05-02'', removed = ''2023-06-01'', wayback_url = []\<rparr>)] (fullpath r') of Some r \<Rightarrow> removed r | None \<Rightarrow> [])) upd)"
proof -
  have a: "snapshot_ok [(''y'', (''2024-01-01 10:00:00'', ''21'')), (''z'', (''2024-01-01 11:00:00'', ''30''))] [''z'', ''y'']"
    by (auto simp: snapshot_ok_def)
  have b: "records_ok [(''x'', \<lparr>creation = ''2023-05-01 08:00:00'', size_str = ''10'', fullpath = ''x'',
                   added = ''2023-05-02'', removed = [], wayback_url = ''https://web.archive.org/x''\<rparr>),
         (''y'', \<lparr>creation = ''2023-05-01 09:00:00'', size_str = ''20'', fullpath = ''y'',
                   added = ''2023-05-02'', removed = ''2023-06-01'', wayback_url = []\<rparr>)]"
    by (simp add: records_ok_def)
  from reconcile_initial_crawl_removed[OF a b, of True "''2024-01-02''" "''2024-01-02''"]
  have "\<exists>upd n. reconcile [(''y'', (''2024-01-01 10:00:00'', ''21'')), (''z'', (''2024-01-01 11:00:00'', ''30''))]
       [''z'', ''y''] [(''x'', \<lparr>creation = ''2023-05-01 08:00:00'', size_str = ''10'', fullpath = ''x'',
                   added = ''2023-05-02'', removed = [], wayback_url = ''https://web.archive.org/x''\<rparr>),
         (''y'', \<lparr>creation = ''2023-05-01 09:00:00'', size_str = ''20'', fullpath = ''y'',
                   added = ''2023-05-02'', removed = ''2023-06-01'', wayback_url = []\<rparr>)] True ''2024-01-02'' ''2024-01-02'' = Inr (upd, n, 0) \<and>
      list_all (\<lambda>r'. removed r' =
         (case map_of [(''x'', \<lparr>creation = ''2023-05-01 08:00:00'', size_str = ''10'', fullpath = ''x'',
                   added = ''2023-05-02'', removed = [], wayback_url = ''https://web.archive.org/x''\<rparr>),
         (''y'', \<lparr>creation = ''2023-05-01 09:00:00'', size_str = ''20'', fullpath = ''y'',
                   added = ''2023-05-02'', removed = ''2023-06-01'', wayback_url = []\<rparr>)] (fullpath r') of Some r \<Rightarrow> removed r | None \<Rightarrow> [])) upd"
    by blast
  with a b show ?thesis by blast
qed

text \<open>
  C1, as the code has it.  The output has one record for each of its paths.  Without the
  initial-crawl flag and with a previous table that is not empty, its paths are those of the
  snapshot and those of the previous table: every previous record is in the output, the ones
  absent from the snapshot carried over (with \<open>removed\<close> set to the run date when it was
  empty).  In initial-crawl mode its paths are those of the snapshot only: the loop that carries
  the absent records over stands under \<open>if not is_initial_crawl\<close>.
\<close>

theorem reconcile_retains:
  assumes "snapshot_ok fd cur" "records_ok ex"
  shows "\<exists>upd n m. reconcile fd cur ex ic today now = Inr (upd, n, m) \<and>
           distinct (map fullpath upd) \<and>
           set (map fullpath upd) = (if ic \<or> ex = [] then set cur else set cur \<union> fst ` set ex) \<and>
           list_all (\<lambda>(k, r). k \<notin> set cur \<and> \<not> ic \<longrightarrow>
              (if removed r = [] then r\<lparr>removed := today\<rparr> else r) \<in> set upd) ex"
proof -
  let ?out = "output_of fd cur ex ic today now"
  obtain n m where rec: "reconcile fd cur ex ic today now = Inr (?out, n, m)"
    using reconcile_output[OF assms(1)] by blast
  have d: "distinct (map fullpath ?out)"
    using assms by (intro distinct_output) (auto simp: snapshot_ok_def)
  have s: "set (map fullpath ?out) = (if ic \<or> ex = [] then set cur else set cur \<union> fst ` set ex)"
    using keys_absent[of cur ex] by (auto simp: paths_output[OF assms(2)])
  have a: "\<And>k r. (k, r) \<in> set ex \<Longrightarrow> k \<notin> set cur \<Longrightarrow> \<not> ic \<Longrightarrow> mark_removed today r \<in> set ?out"
    using assms(2) by (intro absent_in_output) (auto dest: records_ok_member)
  have "list_all (\<lambda>(k, r). k \<notin> set cur \<and> \<not> ic \<longrightarrow>
              (if removed r = [] then r\<lparr>removed := today\<rparr> else r) \<in> set ?out) ex"
    unfolding list_all_iff
  proof (intro ballI, clarify)
    fix k r assume "(k, r) \<in> set ex" "k \<notin> set cur" "\<not> ic"
    then have "mark_removed today r \<in> set ?out" by (rule a)
    then show "(if removed r = [] then r\<lparr>removed := today\<rparr> else r) \<in> set ?out"
      by (simp only: mark_removed_def)
  qed
  with rec d s show ?thesis by blast
qed


theorem reconcile_retains_witness:
  "snapshot_ok [(''y'', (''2024-01-01 10:00:00'', ''21'')), (''z'', (''2024-01-01 11:00:00'', ''30''))] [''z'', ''y''] \<and> records_ok [(''x'', \<lparr>creation = ''2023-05-01 08:00:00'', size_str = ''10'', fullpath = ''x'',
                   added = ''2023-05-02'', removed = [], wayback_url = ''https://web.archive.org/x''\<rparr>),
         (''y'', \<lparr>creation = ''2023-05-01 09:00:00'', size_str = ''20'', fullpath = ''y'',
                   added = ''2023-05-02'', removed = ''2023-06-01'', wayback_url = []\<rparr>)] \<and>
   (\<exists>upd n m. reconcile [(''y'', (''2024-01-01 10:00:00'', ''21'')), (''z'', (''2024-01-01 11:00:00'', ''30''))] [''z'', ''y''] [(''x'', \<lparr>creation = ''2023-05-01 08:00:00'', size_str = ''10'', fullpath = ''x'',
                   added = ''2023-05-02'', removed = [], wayback_url = ''https://web.archive.org/x''\<rparr>),
         (''y'', \<lparr>creation = ''2023-05-01 09:00:00'', size_str = ''20'', fullpath = ''y'',
                   added = ''2023-05-02'', removed = ''2023-06-01'', wayback_url = []\<rparr>)] False ''2024-01-02'' ''2024-01-02'' = Inr (upd, n, m) \<and>
      distinct (map fullpath upd) \<and> set (map fullpath upd) = {''x'', ''y'', ''z''} \<and>
      \<lparr>creation = ''2023-05-01 08:00:00'', size_str = ''10'', fullpath = ''x'',
        added = ''2023-05-02'', removed = ''2024-01-02'',
        wayback_url = ''https://web.archive.org/x''\<rparr> \<in> set upd)"
proof -
  have a: "snapshot_ok [(''y'', (''2024-01-01 10:00:00'', ''21'')), (''z'', (''2024-01-01 11:00:00'', ''30''))] [''z'', ''y'']"
    by (auto simp: snapshot_ok_def)
  have b: "records_ok [(''x'', \<lparr>creation = ''2023-05-01 08:00:00'', size_str = ''10'', fullpath = ''x'',
                   added = ''2023-05-02'', removed = [], wayback_url = ''https://web.archive.org/x''\<rparr>),
         (''y'', \<lparr>creation = ''2023-05-01 09:00:00'', size_str = ''20'', fullpath = ''y'',
                   added = ''2023-05-02'', removed = ''2023-06-01'', wayback_url = []\<rparr>)]"
    by (simp add: records_ok_def)
  from reconcile_retains[OF a b, of False "''2024-01-02''" "''2024-01-02''"]
  obtain upd n m where
    r: "reconcile [(''y'', (''2024-01-01 10:00:00'', ''21'')), (''z'', (''2024-01-01 11:00:00'', ''30''))]
       [''z'', ''y''] [(''x'', \<lparr>creation = ''2023-05-01 08:00:00'', size_str = ''10'', fullpath = ''x'',
                   added = ''2023-05-02'', removed = [], wayback_url = ''https://web.archive.org/x''\<rparr>),
         (''y'', \<lparr>creation = ''2023-05-01 09:00:00'', size_str = ''20'', fullpath = ''y'',
                   added = ''2023-05-02'', removed = ''2023-06-01'', wayback_url = []\<rparr>)] False ''2024-01-02'' ''2024-01-02'' = Inr (upd, n, m)"
    and d: "distinct (map fullpath upd)"
    and s: "set (map fullpath upd) =
       (if False \<or> [(''x'', \<lparr>creation = ''2023-05-01 08:00:00'', size_str = ''10'', fullpath = ''x'',
                   added = ''2023-05-02'', removed = [], wayback_url = ''https://web.archive.org/x''\<rparr>),
         (''y'', \<lparr>creation = ''2023-05-01 09:00:00'', size_str = ''20'', fullpath = ''y'',
                   added = ''2023-05-02'', removed = ''2023-06-01'', wayback_url = []\<rparr>)] = [] then set [''z'', ''y'']
        else set [''z'', ''y''] \<union> fst ` set [(''x'', \<lparr>creation = ''2023-05-01 08:00:00'', size_str = ''10'', fullpath = ''x'',
                   added = ''2023-05-02'', removed = [], wayback_url = ''https://web.archive.org/x''\<rparr>),
         (''y'', \<lparr>creation = ''2023-05-01 09:00:00'', size_str = ''20'', fullpath = ''y'',
                   added = ''2023-05-02'', removed = ''2023-06-01'', wayback_url = []\<rparr>)])"
    and l: "list_all (\<lambda>(k, r). k \<notin> set [''z'', ''y''] \<and> \<not> False \<longrightarrow>
              (if removed r = [] then r\<lparr>removed := ''2024-01-02''\<rparr> else r) \<in> set upd) [(''x'', \<lparr>creation = ''2023-05-01 08:00:00'', size_str = ''10'', fullpath = ''x'',
                   added = ''2023-05-02'', removed = [], wayback_url = ''https://web.archive.org/x''\<rparr>),
         (''y'', \<lparr>creation = ''2023-05-01 09:00:00'', size_str = ''20'', fullpath = ''y'',
                   added = ''2023-05-02'', removed = ''2023-06-01'', wayback_url = []\<rparr>)]"
    by blast
  have s': "set (map fullpath upd) = {''x'', ''y'', ''z''}"
    unfolding s by (simp add: insert_commute)
  have x: "\<lparr>creation = ''2023-05-01 08:00:00'', size_str = ''10'', fullpath = ''x'',
        added = ''2023-05-02'', removed = ''2024-01-02'',
        wayback_url = ''https://web.archive.org/x''\<rparr> \<in> set upd"
    using l by simp
  from a b r d s' x show ?thesis by blast
qed

text \<open>
  C1, as stated, fails: with the initial-crawl flag, the record of \<open>x\<close>, a path of the previous
  table that the snapshot does not list, is not in the output.
\<close>

theorem reconcile_initial_crawl_drops_absent:
  "map_of [(''x'', \<lparr>creation = ''2023-05-01 08:00:00'', size_str = ''10'', fullpath = ''x'',
                   added = ''2023-05-02'', removed = [], wayback_url = ''https://web.archive.org/x''\<rparr>),
         (''y'', \<lparr>creation = ''2023-05-01 09:00:00'', size_str = ''20'', fullpath = ''y'',
                   added = ''2023-05-02'', removed = ''2023-06-01'', wayback_url = []\<rparr>)] ''x'' = Some \<lparr>creation = ''2023-05-01 08:00:00'', size_str = ''10'', fullpath = ''x'',
                   added = ''2023-05-02'', removed = [], wayback_url = ''https://web.archive.org/x''\<rparr> \<and>
   reconcile [(''y'', (''2024-01-01 10:00:00'', ''21'')), (''z'', (''2024-01-01 11:00:00'', ''30''))] [''z'', ''y''] [(''x'', \<lparr>creation = ''2023-05-01 08:00:00'', size_str = ''10'', fullpath = ''x'',
                   added = ''2023-05-02'', removed = [], wayback_url = ''https://web.archive.org/x''\<rparr>),
         (''y'', \<lparr>creation = ''2023-05-01 09:00:00'', size_str = ''20'', fullpath = ''y'',
                   added = ''2023-05-02'', removed = ''2023-06-01'', wayback_url = []\<rparr>)] True ''2024-01-02'' ''2024-01-02'' =
     Inr ([\<lparr>creation = ''2024-01-01 11:00:00'', size_str = ''30'', fullpath = ''z'',
            added = ''initial crawl'', removed = [], wayback_url = []\<rparr>,
           \<lparr>creation = ''2024-01-01 10:00:00'', size_str = ''21'', fullpath = ''y'',
            added = ''2023-05-02'', removed = ''2023-06-01'', wayback_url = []\<rparr>], 1, 0)"
  by code_simp

section \<open>The table file, row by row\<close>

lemma dict_to_list_to_dict: "dict_to_list fieldnames (to_dict r) = record_row r"
  by (simp add: dict_to_list_def fieldnames_def to_dict_def record_row_def)

lemma save_rows_eq: "save_rows rs = fieldnames # map record_row (sorted_records rs)"
  by (simp add: save_rows_def dict_to_list_to_dict)

lemma DictReader_record_row:
  "DictReader_row fieldnames (record_row r) =
     [(''creation'', Some (creation r)), (''size'', Some (size_str r)),
      (''fullpath'', Some (fullpath r)), (''added'', Some (added r)),
      (''removed'', Some (removed r)), (''wayback_url'', Some (wayback_url r))]"
  by (simp add: DictReader_row_def fieldnames_def record_row_def)

lemma init_same:
  "added r \<noteq> [] \<Longrightarrow>
   FileRecord_init now (creation r) (size_str r) (fullpath r) (Some (added r)) (Some (removed r))
     (Some (wayback_url r)) = r"
  by (simp add: FileRecord_init_def or_default_def)

lemma dict_set_fresh: "k \<notin> fst ` set kvs \<Longrightarrow> dict_set k v kvs = kvs @ [(k, v)]"
  by (induction kvs) auto

lemma load_rows_record_rows:
  assumes "distinct (map fst acc @ map fullpath rs)" "list_all (\<lambda>r. added r \<noteq> []) rs"
  shows "load_rows now fieldnames (map record_row rs) acc = Inr (acc @ map (\<lambda>r. (fullpath r, r)) rs)"
  using assms
proof (induction rs arbitrary: acc)
  case Nil
  then show ?case by simp
next
  case (Cons r rs)
  have ne: "record_row r \<noteq> []" by (simp add: record_row_def)
  have fresh: "fullpath r \<notin> fst ` set acc" using Cons.prems(1) by auto
  have items: "row_item (DictReader_row fieldnames (record_row r)) ''fullpath'' = Inr (fullpath r)"
    "row_item (DictReader_row fieldnames (record_row r)) ''creation'' = Inr (creation r)"
    "row_item (DictReader_row fieldnames (record_row r)) ''size'' = Inr (size_str r)"
    "row_get (DictReader_row fieldnames (record_row r)) ''added'' = Some (added r)"
    "row_get (DictReader_row fieldnames (record_row r)) ''removed'' = Some (removed r)"
    "row_get (DictReader_row fieldnames (record_row r)) ''wayback_url'' = Some (wayback_url r)"
    by (simp_all add: DictReader_record_row row_item_def row_get_def row_lookup_def)
  have a: "added r \<noteq> []" using Cons.prems(2) by simp
  have step: "load_rows now fieldnames (map record_row (r # rs)) acc =
              load_rows now fieldnames (map record_row rs) (acc @ [(fullpath r, r)])"
    using ne by (simp add: items init_same[OF a] dict_set_fresh[OF fresh] Let_def)
  have "distinct (map fst (acc @ [(fullpath r, r)]) @ map fullpath rs)"
    using Cons.prems(1) by auto
  from Cons.IH[OF this] Cons.prems(2) show ?case unfolding step by simp
qed

lemma load_save_rows:
  assumes "distinct (map fullpath rs)" "list_all (\<lambda>r. added r \<noteq> []) rs"
  shows "load_existing_rows now (save_rows rs) = Inr (map (\<lambda>r. (fullpath r, r)) (sorted_records rs))"
proof -
  have "distinct (map fullpath (sorted_records rs))"
    using assms(1) by (simp add: sorted_records_def distinct_map)
  moreover have "list_all (\<lambda>r. added r \<noteq> []) (sorted_records rs)"
    using assms(2) by (simp add: sorted_records_def list_all_iff)
  ultimately show ?thesis
    using load_rows_record_rows[of "[]" "sorted_records rs" now]
    by (simp add: load_existing_rows_def save_rows_eq)
qed

section \<open>Reconciling twice\<close>

lemma updated_again:
  "map_of fd p = Some (c, s) \<Longrightarrow>
   (updated fd ex ad now p)\<lparr>creation := c, size_str := s\<rparr> = updated fd ex ad now p"
  by (simp add: updated_def FileRecord_init_def split: option.splits)

lemma added_updated:
  assumes "list_all (\<lambda>(k, r). added r \<noteq> []) ex" "ad \<noteq> []"
  shows "added (updated fd ex ad now p) \<noteq> []"
  using assms
  by (auto simp: updated_def FileRecord_init_def or_default_def list_all_iff
      split: option.splits dest!: map_of_SomeD)

lemma map_of_by_fullpath:
  "distinct (map fullpath xs) \<Longrightarrow> x \<in> set xs \<Longrightarrow>
   map_of (map (\<lambda>r. (fullpath r, r)) xs) (fullpath x) = Some x"
  by (induction xs) (auto simp: image_iff)

lemma map_of_by_fullpath_None:
  "p \<notin> fullpath ` set xs \<Longrightarrow> map_of (map (\<lambda>r. (fullpath r, r)) xs) p = None"
  by (induction xs) auto

lemma records_ok_by_fullpath:
  "distinct (map fullpath xs) \<Longrightarrow> records_ok (map (\<lambda>r. (fullpath r, r)) xs)"
  by (simp add: records_ok_def list_all_iff comp_def)

lemma sort_key_cong_mset:
  assumes "mset xs = mset ys" "inj_on f (set xs)"
  shows "sort_key f xs = sort_key f ys"
  using assms by (intro sort_key_inj_key_eq) simp_all

lemma absent_items_by_fullpath:
  "absent_items cur (map (\<lambda>r. (fullpath r, r)) xs) =
     map (\<lambda>r. (fullpath r, r)) (filter (\<lambda>r. fullpath r \<notin> set cur) xs)"
  by (induction xs) (auto simp: absent_items_def)

lemma output_again:
  assumes snap: "snapshot_ok fd cur" and snap': "snapshot_ok fd cur'"
    and ok: "records_ok ex" and today: "today \<noteq> []"
    and out_def: "out = output_of fd cur ex ic today now"
    and ex1_def: "ex1 = map (\<lambda>r. (fullpath r, r)) (sorted_records out)"
  shows "mset (output_of fd cur' ex1 ic today now') = mset out"
    and "filter (\<lambda>p. map_of ex1 p = None) cur' = []"
    and "filter (\<lambda>(k, r). removed r = []) (absent_items cur' ex1) = [] \<or> ic \<or> ex1 = []"
proof -
  define ad where "ad = (if ic \<or> ex = [] then ''initial crawl'' else today)"
  define u where "u = updated fd ex ad now"
  define B where "B = (if ic \<or> ex = [] then [] else map (mark_removed today \<circ> snd) (absent_items cur ex))"
  have out: "out = map u cur @ B"
    by (simp add: out_def output_of_def u_def ad_def B_def)
  have cur': "set cur' = set cur" "distinct cur" "distinct cur'"
    using snap snap' by (auto simp: snapshot_ok_def)
  have mcur: "mset cur' = mset cur"
    using cur' by (simp add: set_eq_iff_mset_eq_distinct)
  have dout: "distinct (map fullpath out)"
    unfolding out_def using ok cur'(2) by (rule distinct_output)
  have fpu: "fullpath (u p) = p" for p
    unfolding u_def using ok by (rule fullpath_updated)
  have fpB: "fullpath r \<notin> set cur" if "r \<in> set B" for r
  proof -
    from that obtain k r0 where kr: "(k, r0) \<in> set (absent_items cur ex)" "r = mark_removed today r0"
      by (auto simp: B_def split: if_splits)
    then have "(k, r0) \<in> set ex" "k \<notin> set cur" by (auto simp: absent_items_def)
    then show ?thesis using records_ok_member[OF ok, of k r0] kr(2) by simp
  qed
  have remB: "removed r \<noteq> []" if "r \<in> set B" for r
    using that today by (auto simp: B_def mark_removed_def split: if_splits)
  have sset: "set (sorted_records out) = set out"
    by (simp add: sorted_records_def)
  have dsort: "distinct (map fullpath (sorted_records out))"
    using dout by (simp add: sorted_records_def distinct_map)
  have look: "map_of ex1 p = Some (u p)" if "p \<in> set cur" for p
  proof -
    have "u p \<in> set out" using that by (simp add: out)
    then have "u p \<in> set (sorted_records out)" unfolding sset .
    from map_of_by_fullpath[OF dsort this] show ?thesis by (simp add: ex1_def fpu)
  qed
  show none: "filter (\<lambda>p. map_of ex1 p = None) cur' = []"
    using look cur'(1) by (auto simp: filter_empty_conv)
  have upd2: "updated fd ex1 ad2 now' p = u p" if "p \<in> set cur" for p ad2
  proof -
    from that snap obtain c s where cs: "map_of fd p = Some (c, s)"
      by (cases "map_of fd p") (auto simp: snapshot_ok_def map_of_eq_None_iff)
    have "updated fd ex1 ad2 now' p = (u p)\<lparr>creation := c, size_str := s\<rparr>"
      using cs look[OF that] by (simp add: updated_def)
    also have "\<dots> = u p" unfolding u_def using cs by (rule updated_again)
    finally show ?thesis .
  qed
  have m1: "map (updated fd ex1 ad2 now') cur' = map u cur'" for ad2
    using upd2 cur'(1) by (intro map_cong refl) auto
  have fB: "filter (\<lambda>r. fullpath r \<notin> set cur) (sorted_records out) =
            filter (\<lambda>r. fullpath r \<notin> set cur) (sort_key fullpath out)"
    by (simp add: sorted_records_def)
  have fout: "filter (\<lambda>r. fullpath r \<notin> set cur) out = B"
  proof -
    have "filter (\<lambda>r. fullpath r \<notin> set cur) (map u cur) = []"
      by (auto simp: filter_empty_conv fpu)
    moreover have "filter (\<lambda>r. fullpath r \<notin> set cur) B = B"
      using fpB by (auto intro: filter_True)
    ultimately show ?thesis by (simp add: out)
  qed
  have msB: "mset (filter (\<lambda>r. fullpath r \<notin> set cur) (sorted_records out)) = mset B"
  proof -
    have "mset (filter (\<lambda>r. fullpath r \<notin> set cur) (sorted_records out)) =
          mset (filter (\<lambda>r. fullpath r \<notin> set cur) out)"
      by (simp add: sorted_records_def)
    then show ?thesis unfolding fout .
  qed
  have setB: "set (filter (\<lambda>r. fullpath r \<notin> set cur) (sorted_records out)) = set B"
    using msB by (metis set_mset_mset)
  have ab: "absent_items cur' ex1 =
      map (\<lambda>r. (fullpath r, r)) (filter (\<lambda>r. fullpath r \<notin> set cur) (sorted_records out))"
    unfolding ex1_def absent_items_by_fullpath cur'(1) ..
  have markB: "map (mark_removed today \<circ> snd) (absent_items cur' ex1) =
      filter (\<lambda>r. fullpath r \<notin> set cur) (sorted_records out)"
  proof -
    have "map (mark_removed today \<circ> snd) (absent_items cur' ex1) =
          map (mark_removed today) (filter (\<lambda>r. fullpath r \<notin> set cur) (sorted_records out))"
      unfolding ab by (simp add: comp_def)
    also have "\<dots> = map (\<lambda>r. r) (filter (\<lambda>r. fullpath r \<notin> set cur) (sorted_records out))"
    proof (rule map_cong[OF refl])
      fix r assume "r \<in> set (filter (\<lambda>r. fullpath r \<notin> set cur) (sorted_records out))"
      then have "r \<in> set B" unfolding setB .
      then show "mark_removed today r = r" using remB by (simp add: mark_removed_def)
    qed
    finally show ?thesis by simp
  qed
  show "filter (\<lambda>(k, r). removed r = []) (absent_items cur' ex1) = [] \<or> ic \<or> ex1 = []"
  proof -
    have "filter (\<lambda>(k, r). removed r = []) (absent_items cur' ex1) = []"
      unfolding ab using remB setB by (auto simp: filter_empty_conv)
    then show ?thesis by simp
  qed
  show "mset (output_of fd cur' ex1 ic today now') = mset out"
  proof (cases "ic \<or> ex1 = []")
    case True
    have "B = []"
    proof (cases ic)
      case True
      then show ?thesis by (simp add: B_def)
    next
      case False
      with True have "sorted_records out = []" by (simp add: ex1_def)
      then have "set out = {}" unfolding sset[symmetric] by simp
      then have "out = []" by simp
      then show ?thesis by (simp add: out)
    qed
    then show ?thesis using True mcur by (simp add: output_of_def m1 out)
  next
    case False
    then have "output_of fd cur' ex1 ic today now' =
        map u cur' @ filter (\<lambda>r. fullpath r \<notin> set cur) (sorted_records out)"
      by (simp add: output_of_def m1 markB)
    then show ?thesis using msB mcur by (simp add: out)
  qed
qed

lemma added_output:
  assumes "list_all (\<lambda>(k, r). added r \<noteq> []) ex" "today \<noteq> []"
  shows "list_all (\<lambda>r. added r \<noteq> []) (output_of fd cur ex ic today now)"
proof -
  have u: "added (updated fd ex ad now p) \<noteq> []" if "ad \<noteq> []" for ad p
    using assms(1) that by (rule added_updated)
  have b: "added ((mark_removed today \<circ> snd) kr) \<noteq> []" if "kr \<in> set (absent_items cur ex)" for kr
  proof -
    have "kr \<in> set ex" using that by (simp add: absent_items_def)
    then have "added (snd kr) \<noteq> []" using assms(1) by (auto simp: list_all_iff)
    then show ?thesis by (simp add: mark_removed_def)
  qed
  show ?thesis
    unfolding output_of_def list_all_iff using u[OF assms(2)] u[of "''initial crawl''"] b
    by (auto simp del: comp_apply)
qed

text \<open>
  C2. Reconciliation is run on a table (every key the path of its record, no key twice, no
  \<open>added\<close> field empty, as \<open>load_existing_csv\<close> leaves a table) and a snapshot, on a day
  \<open>today\<close>; its records are saved; the saved rows are loaded and reconciliation is run again
  with the same snapshot (its paths in any order), the same flag and the same run date.  The
  second run counts no new and no removed record, and it saves the same rows as the first.
\<close>

theorem reconcile_idempotent:
  assumes "snapshot_ok fd cur" "snapshot_ok fd cur'" "records_ok ex"
    "list_all (\<lambda>(k, r). added r \<noteq> []) ex" "today \<noteq> []"
  shows "\<exists>upd n m ex1 upd'.
     reconcile fd cur ex ic today now = Inr (upd, n, m) \<and>
     load_existing_rows now' (save_rows upd) = Inr ex1 \<and>
     reconcile fd cur' ex1 ic today now' = Inr (upd', 0, 0) \<and>
     save_rows upd' = save_rows upd"
proof -
  define out where "out = output_of fd cur ex ic today now"
  define ex1 where "ex1 = map (\<lambda>r. (fullpath r, r)) (sorted_records out)"
  define out' where "out' = output_of fd cur' ex1 ic today now'"
  obtain n m where r1: "reconcile fd cur ex ic today now = Inr (out, n, m)"
    using reconcile_output[OF assms(1)] unfolding out_def by blast
  have d: "distinct (map fullpath out)"
    unfolding out_def using assms(1,3) by (intro distinct_output) (auto simp: snapshot_ok_def)
  have a: "list_all (\<lambda>r. added r \<noteq> []) out"
    unfolding out_def using assms(4,5) by (rule added_output)
  have l: "load_existing_rows now' (save_rows out) = Inr ex1"
    unfolding ex1_def using d a by (rule load_save_rows)
  note again = output_again[OF assms(1,2,3,5) out_def ex1_def]
  have r2: "reconcile fd cur' ex1 ic today now' = Inr (out', 0, 0)"
  proof (cases "ic \<or> ex1 = []")
    case True
    then show ?thesis
      using reconcile_closed[OF assms(2), of ex1 ic today now'] again(2)
      by (simp add: out'_def output_of_def)
  next
    case False
    then have "filter (\<lambda>(k, r). removed r = []) (absent_items cur' ex1) = []"
      using again(3) by blast
    then show ?thesis
      using reconcile_closed[OF assms(2), of ex1 ic today now'] again(2) False
      by (simp add: out'_def output_of_def)
  qed
  have "mset out' = mset out" unfolding out'_def by (rule again(1))
  moreover have "inj_on fullpath (set out')"
    using d \<open>mset out' = mset out\<close> by (metis distinct_map mset_eq_setD)
  ultimately have "sorted_records out' = sorted_records out"
    unfolding sorted_records_def by (rule sort_key_cong_mset)
  then have "save_rows out' = save_rows out" by (simp add: save_rows_def)
  with r1 l r2 show ?thesis by blast
qed

theorem reconcile_idempotent_witness:
  "snapshot_ok [(''y'', (''2024-01-01 10:00:00'', ''21'')), (''z'', (''2024-01-01 11:00:00'', ''30''))] [''z'', ''y''] \<and> snapshot_ok [(''y'', (''2024-01-01 10:00:00'', ''21'')), (''z'', (''2024-01-01 11:00:00'', ''30''))] [''y'', ''z''] \<and> records_ok [(''x'', \<lparr>creation = ''2023-05-01 08:00:00'', size_str = ''10'', fullpath = ''x'',
                   added = ''2023-05-02'', removed = [], wayback_url = ''https://web.archive.org/x''\<rparr>),
         (''y'', \<lparr>creation = ''2023-05-01 09:00:00'', size_str = ''20'', fullpath = ''y'',
                   added = ''2023-05-02'', removed = ''2023-06-01'', wayback_url = []\<rparr>)] \<and>
   list_all (\<lambda>(k, r). added r \<noteq> []) [(''x'', \<lparr>creation = ''2023-05-01 08:00:00'', size_str = ''10'', fullpath = ''x'',
                   added = ''2023-05-02'', removed = [], wayback_url = ''https://web.archive.org/x''\<rparr>),
         (''y'', \<lparr>creation = ''2023-05-01 09:00:00'', size_str = ''20'', fullpath = ''y'',
                   added = ''2023-05-02'', removed = ''2023-06-01'', wayback_url = []\<rparr>)] \<and> ''2024-01-02'' \<noteq> [] \<and>
   (\<exists>upd n m ex1 upd'.
     reconcile [(''y'', (''2024-01-01 10:00:00'', ''21'')), (''z'', (''2024-01-01 11:00:00'', ''30''))] [''z'', ''y''] [(''x'', \<lparr>creation = ''2023-05-01 08:00:00'', size_str = ''10'', fullpath = ''x'',
                   added = ''2023-05-02'', removed = [], wayback_url = ''https://web.archive.org/x''\<rparr>),
         (''y'', \<lparr>creation = ''2023-05-01 09:00:00'', size_str = ''20'', fullpath = ''y'',
                   added = ''2023-05-02'', removed = ''2023-06-01'', wayback_url = []\<rparr>)] False ''2024-01-02'' ''2024-01-02'' = Inr (upd, n, m) \<and>
     load_existing_rows ''2024-01-03'' (save_rows upd) = Inr ex1 \<and>
     reconcile [(''y'', (''2024-01-01 10:00:00'', ''21'')), (''z'', (''2024-01-01 11:00:00'', ''30''))] [''y'', ''z''] ex1 False ''2024-01-02'' ''2024-01-03'' = Inr (upd', 0, 0) \<and>
     save_rows upd' = save_rows upd)"
proof -
  have a: "snapshot_ok [(''y'', (''2024-01-01 10:00:00'', ''21'')), (''z'', (''2024-01-01 11:00:00'', ''30''))] [''z'', ''y'']"
    by (auto simp: snapshot_ok_def)
  have a': "snapshot_ok [(''y'', (''2024-01-01 10:00:00'', ''21'')), (''z'', (''2024-01-01 11:00:00'', ''30''))] [''y'', ''z'']"
    by (auto simp: snapshot_ok_def)
  have b: "records_ok [(''x'', \<lparr>creation = ''2023-05-01 08:00:00'', size_str = ''10'', fullpath = ''x'',
                   added = ''2023-05-02'', removed = [], wayback_url = ''https://web.archive.org/x''\<rparr>),
         (''y'', \<lparr>creation = ''2023-05-01 09:00:00'', size_str = ''20'', fullpath = ''y'',
                   added = ''2023-05-02'', removed = ''2023-06-01'', wayback_url = []\<rparr>)]"
    by (simp add: records_ok_def)
  have c: "list_all (\<lambda>(k, r). added r \<noteq> []) [(''x'', \<lparr>creation = ''2023-05-01 08:00:00'', size_str = ''10'', fullpath = ''x'',
                   added = ''2023-05-02'', removed = [], wayback_url = ''https://web.archive.org/x''\<rparr>),
         (''y'', \<lparr>creation = ''2023-05-01 09:00:00'', size_str = ''20'', fullpath = ''y'',
                   added = ''2023-05-02'', removed = ''2023-06-01'', wayback_url = []\<rparr>)]"
    by simp
  have d: "''2024-01-02'' \<noteq> []"
    by simp
  from reconcile_idempotent[OF a a' b c d, of False "''2024-01-02''" "''2024-01-03''"] a a' b c d
  show ?thesis by blast
qed

section \<open>Loading the table\<close>

lemma load_rows_step:
  "load_rows now names (row # rows) recs =
     (if row = [] then load_rows now names rows recs
      else case row_record now names row of
             Inl e \<Rightarrow> Inl e
           | Inr r \<Rightarrow> load_rows now names rows (dict_set (fullpath r) r recs))"
  by (simp add: row_record_def Let_def split: sum.splits)

lemma set_dict_set: "set (dict_set k v kvs) \<subseteq> insert (k, v) (set kvs)"
  by (induction kvs) (auto split: if_splits)

lemma distinct_dict_set: "distinct (map fst kvs) \<Longrightarrow> distinct (map fst (dict_set k v kvs))"
  by (simp add: keys_dict_set)

lemma load_rows_from_rows:
  assumes "load_rows now names rows acc = Inr recs"
    and "\<forall>(k, r)\<in>set acc. k = fullpath r \<and> (\<exists>row\<in>R. row \<noteq> [] \<and> row_record now names row = Inr r)"
    and "set rows \<subseteq> R" and "distinct (map fst acc)"
  shows "(\<forall>(k, r)\<in>set recs. k = fullpath r \<and> (\<exists>row\<in>R. row \<noteq> [] \<and> row_record now names row = Inr r))
         \<and> distinct (map fst recs)"
  using assms
proof (induction rows arbitrary: acc)
  case Nil
  then show ?case by simp
next
  case (Cons row rows)
  show ?case
  proof (cases "row = []")
    case True
    with Cons.prems have "load_rows now names rows acc = Inr recs" by simp
    from Cons.IH[OF this Cons.prems(2)] Cons.prems(3,4) show ?thesis by simp
  next
    case False
    with Cons.prems(1) obtain r where r: "row_record now names row = Inr r"
      and l: "load_rows now names rows (dict_set (fullpath r) r acc) = Inr recs"
      unfolding load_rows_step by (auto split: sum.splits)
    have inv: "\<forall>(k, r)\<in>set (dict_set (fullpath r) r acc).
        k = fullpath r \<and> (\<exists>row\<in>R. row \<noteq> [] \<and> row_record now names row = Inr r)"
    proof (clarify)
      fix k r' assume "(k, r') \<in> set (dict_set (fullpath r) r acc)"
      then have "(k, r') = (fullpath r, r) \<or> (k, r') \<in> set acc"
        using set_dict_set[of "fullpath r" r acc] by auto
      then show "k = fullpath r' \<and> (\<exists>row\<in>R. row \<noteq> [] \<and> row_record now names row = Inr r')"
      proof
        assume "(k, r') = (fullpath r, r)"
        then show ?thesis using r False Cons.prems(3) by auto
      next
        assume "(k, r') \<in> set acc"
        then show ?thesis using Cons.prems(2) by auto
      qed
    qed
    have "set rows \<subseteq> R" using Cons.prems(3) by simp
    from Cons.IH[OF l inv this distinct_dict_set[OF Cons.prems(4)]] show ?thesis .
  qed
qed

lemma row_record_fields:
  assumes "row_record now names row = Inr r"
  shows "row_item (DictReader_row names row) ''fullpath'' = Inr (fullpath r)"
    and "row_item (DictReader_row names row) ''creation'' = Inr (creation r)"
    and "row_item (DictReader_row names row) ''size'' = Inr (size_str r)"
    and "added r = or_default (row_get (DictReader_row names row) ''added'') now"
    and "removed r = or_default (row_get (DictReader_row names row) ''removed'') []"
    and "wayback_url r = or_default (row_get (DictReader_row names row) ''wayback_url'') []"
  using assms
  by (auto simp: row_record_def Let_def FileRecord_init_def split: sum.splits)

lemma or_default_nonempty: "d \<noteq> [] \<Longrightarrow> or_default v d \<noteq> []"
  by (simp add: or_default_def split: option.splits)

lemma or_default_missing:
  "row_lookup d key \<in> {None, Some None, Some (Some [])} \<Longrightarrow> or_default (row_get d key) dflt = dflt"
  by (auto simp: or_default_def row_get_def)

lemma or_default_given:
  "row_lookup d key = Some (Some a) \<Longrightarrow> a \<noteq> [] \<Longrightarrow> or_default (row_get d key) dflt = a"
  by (auto simp: or_default_def row_get_def)

lemma load_existing_rows_inv:
  assumes "load_existing_rows now (names # rows) = Inr recs"
  shows "distinct (map fst recs)"
    and "\<forall>(k, r)\<in>set recs. k = fullpath r \<and>
           (\<exists>row\<in>set rows. row \<noteq> [] \<and> row_record now names row = Inr r)"
proof -
  from assms have l: "load_rows now names rows [] = Inr recs"
    by (simp add: load_existing_rows_def)
  from load_rows_from_rows[OF l, of "set rows"]
  show "distinct (map fst recs)"
    and "\<forall>(k, r)\<in>set recs. k = fullpath r \<and>
           (\<exists>row\<in>set rows. row \<noteq> [] \<and> row_record now names row = Inr r)"
    by simp_all
qed

lemma load_existing_rows_ok:
  assumes "load_existing_rows now file = Inr recs" "now \<noteq> []"
  shows "records_ok recs \<and> list_all (\<lambda>(k, r). added r \<noteq> []) recs"
proof (cases "file")
  case Nil
  with assms(1) have "recs = []" by (simp add: load_existing_rows_def)
  then show ?thesis by (simp add: records_ok_def)
next
  case (Cons names rows)
  note inv = load_existing_rows_inv[OF assms(1)[unfolded Cons]]
  have a: "added r \<noteq> []" if "(k, r) \<in> set recs" for k r
  proof -
    from inv(2) that obtain row where "row_record now names row = Inr r" by blast
    from row_record_fields(4)[OF this] show ?thesis
      using assms(2) by (simp add: or_default_nonempty)
  qed
  have b: "fullpath r = k" if "(k, r) \<in> set recs" for k r
    using inv(2) that by auto
  have "list_all (\<lambda>(k, r). added r \<noteq> []) recs"
    unfolding list_all_iff using a by auto
  moreover have "list_all (\<lambda>(k, r). fullpath r = k) recs"
    unfolding list_all_iff using b by auto
  ultimately show ?thesis unfolding records_ok_def using inv(1) by simp
qed

text \<open>
  C10. When the clock's date is not empty (\<open>strftime("%Y-%m-%d")\<close> never is), every record
  that loading yields has a non-empty \<open>added\<close> field and comes from a row of the file with
  its path: when that row's \<open>added\<close> is missing (the header has no such column, or the
  row is too short) or empty, the record's \<open>added\<close> is the date of the load, otherwise it
  is the row's; a missing or empty \<open>removed\<close> or \<open>wayback_url\<close> stays empty.
\<close>

theorem load_existing_rows_added:
  assumes "now \<noteq> []" "load_existing_rows now (names # rows) = Inr recs"
  shows "list_all (\<lambda>(k, r). added r \<noteq> [] \<and>
           (\<exists>row\<in>set rows. row \<noteq> [] \<and>
              row_item (DictReader_row names row) ''fullpath'' = Inr k \<and>
              (row_lookup (DictReader_row names row) ''added'' \<in> {None, Some None, Some (Some [])}
                 \<longrightarrow> added r = now) \<and>
              (\<forall>a. row_lookup (DictReader_row names row) ''added'' = Some (Some a) \<and> a \<noteq> []
                 \<longrightarrow> added r = a) \<and>
              (row_lookup (DictReader_row names row) ''removed'' \<in> {None, Some None, Some (Some [])}
                 \<longrightarrow> removed r = []) \<and>
              (row_lookup (DictReader_row names row) ''wayback_url'' \<in> {None, Some None, Some (Some [])}
                 \<longrightarrow> wayback_url r = []))) recs"
  unfolding list_all_iff
proof (intro ballI, clarify, intro conjI)
  fix k r assume kr: "(k, r) \<in> set recs"
  note inv = load_existing_rows_inv[OF assms(2)]
  from inv(2) kr obtain row where row: "row \<in> set rows" "row \<noteq> []" "row_record now names row = Inr r"
    and k: "k = fullpath r" by blast
  note f = row_record_fields[OF row(3)]
  show "added r \<noteq> []" unfolding f(4) using assms(1) by (rule or_default_nonempty)
  show "\<exists>row\<in>set rows. row \<noteq> [] \<and>
              row_item (DictReader_row names row) ''fullpath'' = Inr k \<and>
              (row_lookup (DictReader_row names row) ''added'' \<in> {None, Some None, Some (Some [])}
                 \<longrightarrow> added r = now) \<and>
              (\<forall>a. row_lookup (DictReader_row names row) ''added'' = Some (Some a) \<and> a \<noteq> []
                 \<longrightarrow> added r = a) \<and>
              (row_lookup (DictReader_row names row) ''removed'' \<in> {None, Some None, Some (Some [])}
                 \<longrightarrow> removed r = []) \<and>
              (row_lookup (DictReader_row names row) ''wayback_url'' \<in> {None, Some None, Some (Some [])}
                 \<longrightarrow> wayback_url r = [])"
  proof (rule bexI[OF _ row(1)], intro conjI impI allI)
    show "row \<noteq> []" by (rule row(2))
    show "row_item (DictReader_row names row) ''fullpath'' = Inr k" unfolding k by (rule f(1))
    show "added r = now"
      if "row_lookup (DictReader_row names row) ''added'' \<in> {None, Some None, Some (Some [])}"
      unfolding f(4) using that by (rule or_default_missing)
    show "added r = a"
      if "row_lookup (DictReader_row names row) ''added'' = Some (Some a) \<and> a \<noteq> []" for a
      unfolding f(4) using that by (auto intro: or_default_given)
    show "removed r = []"
      if "row_lookup (DictReader_row names row) ''removed'' \<in> {None, Some None, Some (Some [])}"
      unfolding f(5) using that by (rule or_default_missing)
    show "wayback_url r = []"
      if "row_lookup (DictReader_row names row) ''wayback_url'' \<in> {None, Some None, Some (Some [])}"
      unfolding f(6) using that by (rule or_default_missing)
  qed
qed


theorem load_existing_rows_added_witness:
  "''2024-01-02'' \<noteq> [] \<and>
   load_existing_rows ''2024-01-02''
     ([''creation'', ''size'', ''fullpath'', ''added'', ''removed'', ''wayback_url''] #
      [[''2024-01-01 10:00:00'', ''5'', ''a/b.bin'', '''', '''', ''''],
       [''2024-01-01 11:00:00'', ''6'', ''d/e.bin''],
       [''2023-01-01 12:00:00'', ''7'', ''f.bin'', ''2023-01-02'', ''2023-02-01'', ''u'']]) =
     Inr [(''a/b.bin'',
           \<lparr>creation = ''2024-01-01 10:00:00'', size_str = ''5'', fullpath = ''a/b.bin'',
            added = ''2024-01-02'', removed = [], wayback_url = []\<rparr>),
          (''d/e.bin'',
           \<lparr>creation = ''2024-01-01 11:00:00'', size_str = ''6'', fullpath = ''d/e.bin'',
            added = ''2024-01-02'', removed = [], wayback_url = []\<rparr>),
          (''f.bin'',
           \<lparr>creation = ''2023-01-01 12:00:00'', size_str = ''7'', fullpath = ''f.bin'',
            added = ''2023-01-02'', removed = ''2023-02-01'', wayback_url = ''u''\<rparr>)] \<and>
   list_all (\<lambda>(k, r). added r \<noteq> [])
     [(''a/b.bin'',
           \<lparr>creation = ''2024-01-01 10:00:00'', size_str = ''5'', fullpath = ''a/b.bin'',
            added = ''2024-01-02'', removed = [], wayback_url = []\<rparr>),
          (''d/e.bin'',
           \<lparr>creation = ''2024-01-01 11:00:00'', size_str = ''6'', fullpath = ''d/e.bin'',
            added = ''2024-01-02'', removed = [], wayback_url = []\<rparr>),
          (''f.bin'',
           \<lparr>creation = ''2023-01-01 12:00:00'', size_str = ''7'', fullpath = ''f.bin'',
            added = ''2023-01-02'', removed = ''2023-02-01'', wayback_url = ''u''\<rparr>)]"
proof -
  have a: "''2024-01-02'' \<noteq> []" by simp
  have b: "load_existing_rows ''2024-01-02''
     ([''creation'', ''size'', ''fullpath'', ''added'', ''removed'', ''wayback_url''] #
      [[''2024-01-01 10:00:00'', ''5'', ''a/b.bin'', '''', '''', ''''],
       [''2024-01-01 11:00:00'', ''6'', ''d/e.bin''],
       [''2023-01-01 12:00:00'', ''7'', ''f.bin'', ''2023-01-02'', ''2023-02-01'', ''u'']]) =
     Inr [(''a/b.bin'',
           \<lparr>creation = ''2024-01-01 10:00:00'', size_str = ''5'', fullpath = ''a/b.bin'',
            added = ''2024-01-02'', removed = [], wayback_url = []\<rparr>),
          (''d/e.bin'',
           \<lparr>creation = ''2024-01-01 11:00:00'', size_str = ''6'', fullpath = ''d/e.bin'',
            added = ''2024-01-02'', removed = [], wayback_url = []\<rparr>),
          (''f.bin'',
           \<lparr>creation = ''2023-01-01 12:00:00'', size_str = ''7'', fullpath = ''f.bin'',
            added = ''2023-01-02'', removed = ''2023-02-01'', wayback_url = ''u''\<rparr>)]"
    by code_simp
  show ?thesis
    using a b list.pred_mono_strong[OF load_existing_rows_added[OF a b],
        of "\<lambda>(k, r). added r \<noteq> []"]
    by fast
qed

section \<open>The archive submitter\<close>

lemma request_indices_append:
  "request_indices (xs @ ys) = request_indices xs @ request_indices ys"
  by (induction xs rule: request_indices.induct) auto

lemma run_ok_step:
  assumes "run_ok (seen @ [r]) st2 res" "events st2 = events st @ new"
    "request_indices new = [] \<or> request_indices new = [length seen]"
    "\<forall>a k f. WriteStats a k f \<in> set new \<longrightarrow> f = 0"
  shows "run_ok seen st res"
proof -
  obtain err recs st' where res: "res = (err, recs, st')" by (cases res)
  from assms(1) obtain tr where tr: "events st' = events st2 @ tr"
    "sorted_wrt (<) (request_indices tr)"
    "\<forall>i\<in>set (request_indices tr). length (seen @ [r]) \<le> i"
    "\<forall>a k f. WriteStats a k f \<in> set tr \<longrightarrow> f = 0"
    "take (length (seen @ [r])) recs = seen @ [r]"
    unfolding run_ok_def res by auto
  have e: "events st' = events st @ (new @ tr)" using tr(1) assms(2) by simp
  have s: "sorted_wrt (<) (request_indices (new @ tr))"
    using assms(3) tr(2,3) by (fastforce simp: request_indices_append Suc_le_eq)
  have l: "\<forall>i\<in>set (request_indices (new @ tr)). length seen \<le> i"
    using assms(3) tr(3) by (auto simp: request_indices_append)
  have w: "\<forall>a k f. WriteStats a k f \<in> set (new @ tr) \<longrightarrow> f = 0"
    using assms(4) tr(4) by auto
  have "take (length seen) (take (length (seen @ [r])) recs) = take (length seen) (seen @ [r])"
    using tr(5) by simp
  then have t: "take (length seen) recs = seen" by (simp add: min_def)
  from e s l w t show ?thesis unfolding run_ok_def res by blast
qed

lemma run_ok_stop: "events st' = events st \<Longrightarrow> take (length seen) recs = seen \<Longrightarrow> run_ok seen st (err, recs, st')"
  by (auto simp: run_ok_def)

lemma archive_loop_run_ok:
  "run_ok seen st (archive_loop respond clock start_time timeout seen todo st)"
proof (induction todo arbitrary: seen st)
  case Nil
  show ?case by (simp add: run_ok_stop)
next
  case (Cons row todo)
  define st1 where "st1 = st\<lparr>readings := readings st + 1\<rparr>"
  have e1: "events st1 = events st" by (simp add: st1_def)
  show ?case
  proof (cases "clock (readings st) - start_time > real_of_int timeout")
    case True
    then show ?thesis by (simp add: run_ok_stop)
  next
    case nt: False
    show ?thesis
    proof (cases "truthy row ''wayback_url''")
      case True
      have "run_ok seen st (archive_loop respond clock start_time timeout (seen @ [row]) todo
          (st1\<lparr>skipped := skipped st1 + 1\<rparr>))"
        by (rule run_ok_step[OF Cons.IH, where new = "[]"]) (simp_all add: st1_def)
      then show ?thesis using nt True by (simp add: st1_def)
    next
      case nw: False
      show ?thesis
      proof (cases "truthy row ''removed''")
        case True
        have "run_ok seen st (archive_loop respond clock start_time timeout (seen @ [row]) todo st1)"
          by (rule run_ok_step[OF Cons.IH, where new = "[]"]) (simp_all add: st1_def)
        then show ?thesis using nt nw True by (simp add: st1_def)
      next
        case nr: False
        show ?thesis
        proof (cases "row_format row ''fullpath''")
          case (Inl e)
          then show ?thesis using nt nw nr by (simp add: run_ok_stop)
        next
          case (Inr p)
          define u where "u = ''https://web.archive.org/save/'' @ ''http://download.tplinkcloud.com/'' @ p"
          define st2 where "st2 = st1\<lparr>requests := requests st1 + 1,
                            events := events st1 @ [Request (length seen) u]\<rparr>"
          show ?thesis
          proof (cases "respond (requests st)")
            case (Response cl gu)
            define row' where "row' = dict_set ''wayback_url'' (Some (wayback_of cl gu)) row"
            define st4 where "st4 = st2\<lparr>archived := archived st2 + 1,
                events := events st2 @ [WriteCsv (seen @ row' # todo),
                    WriteStats (archived st2 + 1) (skipped st2) 0, Sleep 2]\<rparr>"
            have "run_ok seen st (archive_loop respond clock start_time timeout (seen @ [row']) todo st4)"
              by (rule run_ok_step[OF Cons.IH, where new = "[Request (length seen) u,
                    WriteCsv (seen @ row' # todo), WriteStats (archived st2 + 1) (skipped st2) 0, Sleep 2]"])
                 (simp_all add: st4_def st2_def st1_def)
            then show ?thesis using nt nw nr Inr Response
              by (simp add: st4_def st2_def st1_def u_def row'_def Let_def)
          next
            case (HTTPError code)
            have a: "run_ok seen st (archive_loop respond clock start_time timeout (seen @ [row]) todo
                   (st2\<lparr>events := events st2 @ [Sleep n]\<rparr>))" for n
              by (rule run_ok_step[OF Cons.IH, where new = "[Request (length seen) u, Sleep n]"])
                 (simp_all add: st2_def st1_def)
            show ?thesis using nt nw nr Inr HTTPError a[of 60] a[of 2]
              by (simp add: st2_def st1_def u_def Let_def)
          next
            case OtherException
            have "run_ok seen st (archive_loop respond clock start_time timeout (seen @ [row]) todo
                   (st2\<lparr>events := events st2 @ [Sleep 2]\<rparr>))"
              by (rule run_ok_step[OF Cons.IH, where new = "[Request (length seen) u, Sleep 2]"])
                 (simp_all add: st2_def st1_def)
            then show ?thesis using nt nw nr Inr OtherException
              by (simp add: st2_def st1_def u_def Let_def)
          qed
        qed
      qed
    qed
  qed
qed

text \<open>
  C6, as the code has it.  When the endpoint answers 429 for a pending record, the submitter
  sleeps 60 (and not the 2 of the pacing delay) and goes on with the next record: the rest of
  the run is the loop on the records that follow, in the same state but for the request and the
  sleep.  The record is not requested again in this run (every later request has a greater
  index), it is in the table the run leaves as it was, and no statistics file written
  afterwards counts a failure.
\<close>

theorem archive_rate_limited:
  assumes "\<not> clock (readings st) - start_time > real_of_int timeout"
    and "\<not> truthy row ''wayback_url''" and "\<not> truthy row ''removed''"
    and "row_format row ''fullpath'' = Inr p"
    and "respond (requests st) = HTTPError 429"
  shows "\<exists>err recs st' tr.
     archive_loop respond clock start_time timeout seen (row # todo) st = (err, recs, st') \<and>
     events st' = events st @
       [Request (length seen) (''https://web.archive.org/save/http://download.tplinkcloud.com/'' @ p),
        Sleep 60] @ tr \<and>
     (\<forall>i\<in>set (request_indices tr). length seen < i) \<and>
     recs ! length seen = row \<and>
     (\<forall>a k f. WriteStats a k f \<in> set tr \<longrightarrow> f = 0) \<and>
     (err, recs, st') =
       archive_loop respond clock start_time timeout (seen @ [row]) todo
         (st\<lparr>readings := readings st + 1, requests := requests st + 1,
             events := events st @
               [Request (length seen)
                  (''https://web.archive.org/save/http://download.tplinkcloud.com/'' @ p),
                Sleep 60]\<rparr>)"
proof -
  define u where "u = ''https://web.archive.org/save/http://download.tplinkcloud.com/'' @ p"
  define st2 where "st2 = st\<lparr>readings := readings st + 1, requests := requests st + 1,
             events := events st @ [Request (length seen) u, Sleep 60]\<rparr>"
  define res where "res = archive_loop respond clock start_time timeout (seen @ [row]) todo st2"
  obtain err recs st' where r: "res = (err, recs, st')" by (cases res)
  have step: "archive_loop respond clock start_time timeout seen (row # todo) st = res"
    using assms by (simp add: res_def st2_def u_def Let_def)
  have "run_ok (seen @ [row]) st2 res" unfolding res_def by (rule archive_loop_run_ok)
  then obtain tr where tr: "events st' = events st2 @ tr"
    "\<forall>i\<in>set (request_indices tr). length (seen @ [row]) \<le> i"
    "\<forall>a k f. WriteStats a k f \<in> set tr \<longrightarrow> f = 0"
    "take (length (seen @ [row])) recs = seen @ [row]"
    unfolding run_ok_def r by auto
  have e: "events st' = events st @ [Request (length seen) u, Sleep 60] @ tr"
    using tr(1) by (simp add: st2_def)
  have i: "\<forall>i\<in>set (request_indices tr). length seen < i"
    using tr(2) by auto
  have "(take (length (seen @ [row])) recs) ! length seen = (seen @ [row]) ! length seen"
    using tr(4) by simp
  then have n: "recs ! length seen = row" by simp
  have "archive_loop respond clock start_time timeout seen (row # todo) st = (err, recs, st') \<and>
     events st' = events st @ [Request (length seen) u, Sleep 60] @ tr \<and>
     (\<forall>i\<in>set (request_indices tr). length seen < i) \<and>
     recs ! length seen = row \<and>
     (\<forall>a k f. WriteStats a k f \<in> set tr \<longrightarrow> f = 0) \<and>
     (err, recs, st') = res"
    using step r e i n tr(3) by simp
  then show ?thesis
    unfolding u_def[symmetric] st2_def[symmetric] res_def[symmetric]
    by (intro exI)
qed

theorem archive_rate_limited_witness:
  "\<not> (\<lambda>k. 0::real) (readings \<lparr>archived = 0, skipped = 0, requests = 0, readings = 1,
                      events = [WriteStats 0 0 0]\<rparr>) - 0 > real_of_int 300 \<and>
   \<not> truthy [(''fullpath'', Some ''a.bin''), (''removed'', Some []), (''wayback_url'', Some [])]
        ''wayback_url'' \<and>
   \<not> truthy [(''fullpath'', Some ''a.bin''), (''removed'', Some []), (''wayback_url'', Some [])]
        ''removed'' \<and>
   row_format [(''fullpath'', Some ''a.bin''), (''removed'', Some []), (''wayback_url'', Some [])]
        ''fullpath'' = Inr ''a.bin'' \<and>
   (\<exists>err recs st' tr.
      archive_loop (\<lambda>k. HTTPError 429) (\<lambda>k. 0) 0 300 []
        ([(''fullpath'', Some ''a.bin''), (''removed'', Some []), (''wayback_url'', Some [])] # [])
        \<lparr>archived = 0, skipped = 0, requests = 0, readings = 1, events = [WriteStats 0 0 0]\<rparr> =
        (err, recs, st') \<and>
      events st' = [WriteStats 0 0 0] @
        [Request 0 ''https://web.archive.org/save/http://download.tplinkcloud.com/a.bin'',
         Sleep 60] @ tr \<and>
      recs ! 0 = [(''fullpath'', Some ''a.bin''), (''removed'', Some []), (''wayback_url'', Some [])])"
proof -
  let ?row = "[(''fullpath'', Some ''a.bin''), (''removed'', Some []), (''wayback_url'', Some [])]"
  let ?st = "\<lparr>archived = 0, skipped = 0, requests = 0, readings = 1, events = [WriteStats 0 0 0]\<rparr>"
  have a: "\<not> (\<lambda>k. 0::real) (readings ?st) - 0 > real_of_int 300" by simp
  have b: "\<not> truthy ?row ''wayback_url''" by (simp add: truthy_def row_lookup_def)
  have c: "\<not> truthy ?row ''removed''" by (simp add: truthy_def row_lookup_def)
  have d: "row_format ?row ''fullpath'' = Inr ''a.bin''" by (simp add: row_format_def row_lookup_def)
  have e: "(\<lambda>k. HTTPError 429) (requests ?st) = HTTPError 429" by simp
  from archive_rate_limited[where clock = "\<lambda>k. 0" and st = ?st and start_time = 0 and timeout = 300
      and row = ?row and p = "''a.bin''" and respond = "\<lambda>k. HTTPError 429" and seen = "[]"
      and todo = "[]", OF a b c d e]
  obtain err recs st' tr where
    "archive_loop (\<lambda>k. HTTPError 429) (\<lambda>k. 0) 0 300 [] (?row # []) ?st = (err, recs, st')"
    "events st' = events ?st @
        [Request (length ([] :: (string \<times> string option) list list))
           (''https://web.archive.org/save/http://download.tplinkcloud.com/'' @ ''a.bin''),
         Sleep 60] @ tr"
    "recs ! length ([] :: (string \<times> string option) list list) = ?row"
    by blast
  then have "archive_loop (\<lambda>k. HTTPError 429) (\<lambda>k. 0) 0 300 [] (?row # []) ?st = (err, recs, st') \<and>
      events st' = [WriteStats 0 0 0] @
        [Request 0 ''https://web.archive.org/save/http://download.tplinkcloud.com/a.bin'',
         Sleep 60] @ tr \<and>
      recs ! 0 = ?row"
    by simp
  then show ?thesis using a b c d by blast
qed

text \<open>
  C6, as stated, fails: the first record is answered 429, and the request after the sleep of
  60 is for the second record; the first is not requested again.
\<close>

theorem archive_rate_limited_not_retried:
  "take 4 (snd (archive_main
       (\<lambda>k. if k = 0 then HTTPError 429 else Response (Some ''/web/2/b.bin'') ''u'')
       (\<lambda>k. 0) 300
       (Some [[''creation'', ''size'', ''fullpath'', ''added'', ''removed'', ''wayback_url''],
              [''2024-01-01 10:00:00'', ''5'', ''a.bin'', ''2024-01-02'', '''', ''''],
              [''2024-01-01 10:00:00'', ''6'', ''b.bin'', ''2024-01-02'', '''', '''']]))) =
     [WriteStats 0 0 0,
      Request 0 ''https://web.archive.org/save/http://download.tplinkcloud.com/a.bin'',
      Sleep 60,
      Request 1 ''https://web.archive.org/save/http://download.tplinkcloud.com/b.bin''] \<and>
   request_indices (snd (archive_main
       (\<lambda>k. if k = 0 then HTTPError 429 else Response (Some ''/web/2/b.bin'') ''u'')
       (\<lambda>k. 0) 300
       (Some [[''creation'', ''size'', ''fullpath'', ''added'', ''removed'', ''wayback_url''],
              [''2024-01-01 10:00:00'', ''5'', ''a.bin'', ''2024-01-02'', '''', ''''],
              [''2024-01-01 10:00:00'', ''6'', ''b.bin'', ''2024-01-02'', '''', '''']]))) = [0, 1]"
  by (simp add: archive_main_def DictReader_row_def truthy_def row_lookup_def row_format_def
      wayback_of_def Let_def)

section \<open>The path classifier\<close>

lemma is_run_not_space: "is_run c \<Longrightarrow> \<not> isspace c"
  by (auto simp: is_run_def is_alpha_def is_digit_def isspace_def less_eq_char_def)

lemma spaces_then_marker_intro:
  "ws \<noteq> [] \<Longrightarrow> list_all isspace ws \<Longrightarrow> marker rest \<Longrightarrow> spaces_then_marker (ws @ rest)"
proof (induction ws)
  case Nil
  then show ?case by simp
next
  case (Cons c ws)
  then show ?case by (cases ws) auto
qed

lemma spaces_then_marker_D:
  "spaces_then_marker s \<Longrightarrow>
   \<exists>ws rest. s = ws @ rest \<and> ws \<noteq> [] \<and> list_all isspace ws \<and> marker rest"
proof (induction s)
  case Nil
  then show ?case by simp
next
  case (Cons c cs)
  then have c: "isspace c" and d: "spaces_then_marker cs \<or> marker cs" by auto
  from d show ?case
  proof
    assume "spaces_then_marker cs"
    from Cons.IH[OF this] obtain ws rest where
      "cs = ws @ rest" "ws \<noteq> []" "list_all isspace ws" "marker rest" by blast
    then have "c # cs = (c # ws) @ rest \<and> c # ws \<noteq> [] \<and> list_all isspace (c # ws) \<and> marker rest"
      using c by simp
    then show ?thesis by blast
  next
    assume "marker cs"
    then have "c # cs = [c] @ cs \<and> [c] \<noteq> [] \<and> list_all isspace [c] \<and> marker cs"
      using c by simp
    then show ?thesis by blast
  qed
qed

lemma spaces_then_marker_run: "is_run c \<Longrightarrow> \<not> spaces_then_marker (c # cs)"
  by (simp add: is_run_not_space)

lemma lazy_run_append:
  assumes "list_all is_run r" "rest s" "\<And>c cs. is_run c \<Longrightarrow> \<not> rest (c # cs)"
  shows "lazy_run rest acc (r @ s) = Some (acc @ r)"
  using assms(1)
proof (induction r arbitrary: acc)
  case Nil
  show ?case using assms(2) by (cases s) simp_all
next
  case (Cons c r)
  then have "is_run c" "list_all is_run r" by simp_all
  then show ?case using Cons.IH[of "acc @ [c]"] assms(3)[of c "r @ s"] by simp
qed

lemma lazy_run_D:
  "lazy_run rest acc s = Some g \<Longrightarrow>
   \<exists>r s'. s = r @ s' \<and> list_all is_run r \<and> rest s' \<and> g = acc @ r"
proof (induction s arbitrary: acc)
  case Nil
  then show ?case by (auto split: if_splits)
next
  case (Cons c cs)
  show ?case
  proof (cases "rest (c # cs)")
    case True
    with Cons.prems have "g = acc" by simp
    then have "c # cs = [] @ (c # cs) \<and> list_all is_run [] \<and> rest (c # cs) \<and> g = acc @ []"
      using True by simp
    then show ?thesis by blast
  next
    case False
    with Cons.prems have c: "is_run c" and l: "lazy_run rest (acc @ [c]) cs = Some g"
      by (auto split: if_splits)
    from Cons.IH[OF l] obtain r s' where
      "cs = r @ s'" "list_all is_run r" "rest s'" "g = (acc @ [c]) @ r" by blast
    then have "c # cs = (c # r) @ s' \<and> list_all is_run (c # r) \<and> rest s' \<and> g = acc @ (c # r)"
      using c by simp
    then show ?thesis by blast
  qed
qed

lemma first_pattern_iff:
  "first_pattern filename = Some g \<longleftrightarrow>
     (\<exists>c r ws rest. filename = c # r @ ws @ rest \<and> g = c # r \<and> is_alpha c \<and>
        list_all is_run r \<and> ws \<noteq> [] \<and> list_all isspace ws \<and> marker rest)"
  (is "?L \<longleftrightarrow> ?R")
proof
  assume ?L
  then obtain c cs where f: "filename = c # cs" and a: "is_alpha c"
    and l: "lazy_run spaces_then_marker [c] cs = Some g"
    by (auto simp: first_pattern_def match_group_def split: list.splits if_splits)
  from lazy_run_D[OF l] obtain r s' where r: "cs = r @ s'" "list_all is_run r"
    "spaces_then_marker s'" "g = [c] @ r" by blast
  from spaces_then_marker_D[OF r(3)] obtain ws rest where
    w: "s' = ws @ rest" "ws \<noteq> []" "list_all isspace ws" "marker rest" by blast
  have "filename = c # r @ ws @ rest \<and> g = c # r \<and> is_alpha c \<and>
        list_all is_run r \<and> ws \<noteq> [] \<and> list_all isspace ws \<and> marker rest"
    using f a r w by simp
  then show ?R by blast
next
  assume ?R
  then obtain c r ws rest where h: "filename = c # r @ ws @ rest" "g = c # r" "is_alpha c"
    "list_all is_run r" "ws \<noteq> []" "list_all isspace ws" "marker rest" by blast
  have "spaces_then_marker (ws @ rest)" using h(5,6,7) by (rule spaces_then_marker_intro)
  then have "lazy_run spaces_then_marker [c] (r @ ws @ rest) = Some ([c] @ r)"
    using h(4) spaces_then_marker_run by (intro lazy_run_append)
  then show ?L using h(1,2,3) by (simp add: first_pattern_def match_group_def)
qed

lemma extract_first_pattern:
  assumes "first_pattern filename = Some g" "split_sep CHR ''/'' path = parts"
    "2 \<le> length parts" "filename = last parts"
  shows "extract_type_and_product path =
           Some (parts ! 0, if 3 \<le> length parts then parts ! 1 else [], rstrip_hyphen g)"
proof (cases "3 \<le> length parts")
  case True
  then show ?thesis using assms
    by (simp add: extract_type_and_product_def Let_def not_less)
next
  case False
  with assms(3) have "length parts = 2" by simp
  then obtain a b where "parts = [a, b]"
    by (cases parts; cases "tl parts") auto
  then have "first_pattern (parts ! 1) = Some g" using assms(1,4) by simp
  then show ?thesis using False assms(2,3)
    by (simp add: extract_type_and_product_def Let_def not_less)
qed

text \<open>
  C7, as the code has it.  The first pattern is
  \<open>^([A-Za-z][A-Za-z0-9\-]*?)\s+(?:[0-9]|en_|v[0-9]|Build|Rel|dist)\<close>: for every filename
  that is a letter, a run (possibly empty) of letters, digits and hyphens, one or more
  whitespace characters, and then a digit or one of \<open>en_\<close>, \<open>v\<close> and a digit, \<open>Build\<close>,
  \<open>Rel\<close>, \<open>dist\<close> (letters in either case), the first pattern matches with the letter and
  the run as its group, and the classifier returns them, trailing hyphens stripped, as the
  product.  No other filename matches the first pattern.
\<close>

theorem first_pattern_correct:
  assumes "is_alpha c" "list_all is_run r" "ws \<noteq> []" "list_all isspace ws" "marker rest"
    and "split_sep CHR ''/'' path = parts" "2 \<le> length parts" "last parts = c # r @ ws @ rest"
  shows "first_pattern (c # r @ ws @ rest) = Some (c # r) \<and>
         extract_type_and_product path =
           Some (parts ! 0, if 3 \<le> length parts then parts ! 1 else [], rstrip_hyphen (c # r)) \<and>
         (\<forall>filename g. first_pattern filename = Some g \<longrightarrow>
            (\<exists>c' r' ws' rest'. filename = c' # r' @ ws' @ rest' \<and> g = c' # r' \<and> is_alpha c' \<and>
               list_all is_run r' \<and> ws' \<noteq> [] \<and> list_all isspace ws' \<and> marker rest'))"
proof (intro conjI allI impI)
  show f: "first_pattern (c # r @ ws @ rest) = Some (c # r)"
    unfolding first_pattern_iff using assms(1-5) by blast
  show "extract_type_and_product path =
           Some (parts ! 0, if 3 \<le> length parts then parts ! 1 else [], rstrip_hyphen (c # r))"
    using f assms(6,7) assms(8)[symmetric] by (rule extract_first_pattern)
  show "\<exists>c' r' ws' rest'. filename = c' # r' @ ws' @ rest' \<and> g = c' # r' \<and> is_alpha c' \<and>
               list_all is_run r' \<and> ws' \<noteq> [] \<and> list_all isspace ws' \<and> marker rest'"
    if "first_pattern filename = Some g" for filename g
    using that unfolding first_pattern_iff .
qed

theorem first_pattern_correct_witness:
  "is_alpha CHR ''T'' \<and> list_all is_run ''apo-C200-'' \<and> ''  '' \<noteq> [] \<and> list_all isspace ''  '' \<and>
   marker ''V2 build.bin'' \<and>
   split_sep CHR ''/'' ''firmware/Tapo-C200-  V2 build.bin'' =
     [''firmware'', ''Tapo-C200-  V2 build.bin''] \<and>
   first_pattern ''Tapo-C200-  V2 build.bin'' = Some ''Tapo-C200-'' \<and>
   extract_type_and_product ''firmware/Tapo-C200-  V2 build.bin'' =
     Some (''firmware'', [], ''Tapo-C200'')"
proof -
  have a: "is_alpha CHR ''T''" by (simp add: is_alpha_def less_eq_char_def)
  have b: "list_all is_run ''apo-C200-''"
    by (simp add: is_run_def is_alpha_def is_digit_def less_eq_char_def)
  have c: "''  '' \<noteq> []" by simp
  have d: "list_all isspace ''  ''" by (simp add: isspace_def)
  have e: "marker ''V2 build.bin''"
    by code_simp
  have f: "split_sep CHR ''/'' ''firmware/Tapo-C200-  V2 build.bin'' =
     [''firmware'', ''Tapo-C200-  V2 build.bin'']" by simp
  have g: "2 \<le> length [''firmware'', ''Tapo-C200-  V2 build.bin'']" by simp
  have h: "last [''firmware'', ''Tapo-C200-  V2 build.bin''] =
           CHR ''T'' # ''apo-C200-'' @ ''  '' @ ''V2 build.bin''" by simp
  have s: "rstrip_hyphen ''Tapo-C200-'' = ''Tapo-C200''" by (simp add: rstrip_hyphen_def)
  from first_pattern_correct[OF a b c d e f g h] s a b c d e f
  show ?thesis by simp
qed


text \<open>
  C7, as stated, fails: a run followed at once by a version marker, or by \<open>en_\<close>, does not
  match the first pattern, which wants whitespace between the two; the first filename is
  not classified at all, the second gets its product from the second pattern.
\<close>

theorem first_pattern_needs_whitespace:
  "list_all is_run ''Tapo-C200'' \<and> marker ''v1.bin'' \<and>
   first_pattern (''Tapo-C200'' @ ''v1.bin'') = None \<and>
   extract_type_and_product (''firmware/'' @ ''Tapo-C200'' @ ''v1.bin'') = None \<and>
   list_all is_run ''C200'' \<and> marker ''en_1.0.bin'' \<and>
   first_pattern (''C200'' @ ''en_1.0.bin'') = None \<and>
   extract_type_and_product (''firmware/'' @ ''C200'' @ ''en_1.0.bin'') =
     Some (''firmware'', [], ''C200en'')"
  by code_simp

end
